theory Spec2Isabelle
  imports Main "HOL-Library.Sublist" "HOL-Library.Multiset"
begin

section \<open>Text\<close>

text \<open>
  The engine of \<^verbatim>\<open>src/engine.py\<close> works on Python \<^verbatim>\<open>str\<close> values, sequences of Unicode
  code points. A code point is a natural number and a text is a list of them; \<open>ustr\<close>
  turns a literal into such a text.
\<close>

type_synonym codepoint = nat

type_synonym str = "codepoint list"

definition ord :: "char \<Rightarrow> codepoint" where
  "ord c = of_char c"

definition ustr :: "string \<Rightarrow> str" where
  "ustr s = map ord s"

text \<open>
  Where Python classifies a character or changes its case it consults the Unicode
  character database of the interpreter. The database is no part of the repository; it
  is a parameter \<open>U\<close> of everything that depends on it, with the tables the engine
  reaches: the four predicates behind \<^verbatim>\<open>str.isalnum\<close>, the full upper-case mapping of one
  code point (one to three code points) and the printable code points that \<^verbatim>\<open>repr\<close>
  leaves unescaped.
\<close>

record unicode_db =
  isalpha :: "codepoint \<Rightarrow> bool"
  isdecimal :: "codepoint \<Rightarrow> bool"
  isdigit :: "codepoint \<Rightarrow> bool"
  isnumeric :: "codepoint \<Rightarrow> bool"
  toupper :: "codepoint \<Rightarrow> str"
  isprintable :: "codepoint \<Rightarrow> bool"

text \<open>The ASCII letters and digits.\<close>

definition is_upper :: "codepoint \<Rightarrow> bool" where
  "is_upper c \<longleftrightarrow> ord CHR ''A'' \<le> c \<and> c \<le> ord CHR ''Z''"

definition is_lower :: "codepoint \<Rightarrow> bool" where
  "is_lower c \<longleftrightarrow> ord CHR ''a'' \<le> c \<and> c \<le> ord CHR ''z''"

definition is_letter :: "codepoint \<Rightarrow> bool" where
  "is_letter c \<longleftrightarrow> is_upper c \<or> is_lower c"

definition is_ascii_digit :: "codepoint \<Rightarrow> bool" where
  "is_ascii_digit c \<longleftrightarrow> ord CHR ''0'' \<le> c \<and> c \<le> ord CHR ''9''"

text \<open>
  \<^verbatim>\<open>\d\<close> of a \<^verbatim>\<open>str\<close> pattern is a Unicode decimal digit. A word character, for \<^verbatim>\<open>\b\<close>, is
  an alphanumeric character (alphabetic, decimal, digit or numeric) or the underscore.
\<close>

definition is_digit :: "unicode_db \<Rightarrow> codepoint \<Rightarrow> bool" where
  "is_digit U c \<longleftrightarrow> isdecimal U c"

definition isalnum :: "unicode_db \<Rightarrow> codepoint \<Rightarrow> bool" where
  "isalnum U c \<longleftrightarrow> isalpha U c \<or> isdecimal U c \<or> isdigit U c \<or> isnumeric U c"

definition is_word :: "unicode_db \<Rightarrow> codepoint \<Rightarrow> bool" where
  "is_word U c \<longleftrightarrow> isalnum U c \<or> c = ord CHR ''_''"

text \<open>\<^verbatim>\<open>s.upper()\<close>: every code point is replaced by its full upper-case mapping.\<close>

definition upper :: "unicode_db \<Rightarrow> str \<Rightarrow> str" where
  "upper U s = concat (map (toupper U) s)"

text \<open>\<^verbatim>\<open>s.replace("-", "")\<close>: every hyphen is removed.\<close>

definition remove_hyphens :: "str \<Rightarrow> str" where
  "remove_hyphens s = filter (\<lambda>c. c \<noteq> ord CHR ''-'') s"

text \<open>\<^verbatim>\<open>c.replace("-", "").upper()\<close>, the normalisation of line 67 and of line 72.\<close>

definition normalize_code :: "unicode_db \<Rightarrow> str \<Rightarrow> str" where
  "normalize_code U s = upper U (remove_hyphens s)"

text \<open>\<^verbatim>\<open>needle in haystack\<close> on two strings: the search for a contiguous occurrence.\<close>

fun str_contains :: "str \<Rightarrow> str \<Rightarrow> bool" where
  "str_contains needle [] = (needle = [])"
| "str_contains needle (c # cs) = (prefix needle (c # cs) \<or> str_contains needle cs)"

text \<open>\<^verbatim>\<open>sep.join(parts)\<close>\<close>

fun join :: "str \<Rightarrow> str list \<Rightarrow> str" where
  "join sep [] = []"
| "join sep [x] = x"
| "join sep (x # y # ys) = x @ sep @ join sep (y # ys)"

text \<open>\<^verbatim>\<open>str(n)\<close> for a non-negative integer: its decimal digits.\<close>

definition digit_char :: "nat \<Rightarrow> codepoint" where
  "digit_char d = ord CHR ''0'' + d"

function str_nat :: "nat \<Rightarrow> str" where
  "str_nat n = (if n < 10 then [digit_char n] else str_nat (n div 10) @ [digit_char (n mod 10)])"
  by pat_completeness auto
termination
  by (relation "measure id") auto

subsection \<open>What is used of the Unicode database\<close>

text \<open>
  On the ASCII code points every version of the database has the ASCII letters as the
  alphabetic characters, the ASCII digits as the decimal, digit and numeric characters,
  \<^verbatim>\<open>a-z\<close> mapped to \<^verbatim>\<open>A-Z\<close> and nothing else changed by the upper-case mapping, and the
  code points from the space to the tilde as the printable ones.
\<close>

definition ascii_part :: "unicode_db \<Rightarrow> bool" where
  "ascii_part U \<longleftrightarrow>
     (\<forall>c<128. (isalpha U c \<longleftrightarrow> is_letter c)
        \<and> (isdecimal U c \<longleftrightarrow> is_ascii_digit c)
        \<and> (isdigit U c \<longleftrightarrow> is_ascii_digit c)
        \<and> (isnumeric U c \<longleftrightarrow> is_ascii_digit c)
        \<and> toupper U c = [if is_lower c then c - 32 else c]
        \<and> (isprintable U c \<longleftrightarrow> 32 \<le> c \<and> c < 127))"

text \<open>
  The upper-case mapping of an upper-case mapping changes nothing, and the hyphen
  appears in the upper-case mapping of no other code point.
\<close>

definition upper_stable :: "unicode_db \<Rightarrow> bool" where
  "upper_stable U \<longleftrightarrow>
     (\<forall>c. upper U (toupper U c) = toupper U c)
     \<and> (\<forall>c. c \<noteq> ord CHR ''-'' \<longrightarrow> ord CHR ''-'' \<notin> set (toupper U c))"

text \<open>
  The database on the code points below 256 (ASCII and Latin-1), as Python has it; the
  code points from 256 on are unclassified here, printable and without case.
\<close>

definition latin1_upper :: "codepoint \<Rightarrow> str" where
  "latin1_upper c =
     (if is_lower c then [c - 32]
      else if c = 0xB5 then [0x39C]
      else if c = 0xDF then [ord CHR ''S'', ord CHR ''S'']
      else if 0xE0 \<le> c \<and> c \<le> 0xFE \<and> c \<noteq> 0xF7 then [c - 32]
      else if c = 0xFF then [0x178]
      else [c])"

definition latin1_alpha :: "codepoint \<Rightarrow> bool" where
  "latin1_alpha c \<longleftrightarrow>
     is_letter c \<or> c = 0xAA \<or> c = 0xB5 \<or> c = 0xBA
     \<or> (0xC0 \<le> c \<and> c \<le> 0xD6) \<or> (0xD8 \<le> c \<and> c \<le> 0xF6) \<or> (0xF8 \<le> c \<and> c \<le> 0xFF)"

definition latin1_db :: unicode_db where
  "latin1_db =
     \<lparr>isalpha = latin1_alpha,
      isdecimal = is_ascii_digit,
      isdigit = (\<lambda>c. is_ascii_digit c \<or> c = 0xB2 \<or> c = 0xB3 \<or> c = 0xB9),
      isnumeric = (\<lambda>c. is_ascii_digit c \<or> c = 0xB2 \<or> c = 0xB3 \<or> c = 0xB9
                        \<or> (0xBC \<le> c \<and> c \<le> 0xBE)),
      toupper = latin1_upper,
      isprintable = (\<lambda>c. 32 \<le> c \<and> c \<noteq> 127 \<and> \<not> (0x80 \<le> c \<and> c \<le> 0xA0) \<and> c \<noteq> 0xAD)\<rparr>"

section \<open>Regular expressions\<close>

text \<open>
  \<^verbatim>\<open>_extract_error_codes\<close> is one call,
  \<^verbatim>\<open>re.findall(r"\b[A-Za-z]+-?\d+\b", text)\<close>. The pattern is kept as the syntax tree
  that Python's \<^verbatim>\<open>re\<close> parses it to, and \<open>sre_match\<close> is the backtracking matcher of
  \<^verbatim>\<open>re\<close> on such trees: a greedy repetition first takes as many characters as it can
  and gives them back one at a time while the rest of the pattern fails. The pattern is
  a \<^verbatim>\<open>str\<close> compiled without flags, so its digits and word boundaries are those of
  Unicode.
\<close>

datatype charset = Range codepoint codepoint | Literal codepoint | Category_Digit

datatype node = At_Boundary | Max_Repeat nat "nat option" "charset list"

type_synonym pattern = "node list"

fun charset_matches :: "unicode_db \<Rightarrow> charset \<Rightarrow> codepoint \<Rightarrow> bool" where
  "charset_matches U (Range lo hi) c = (lo \<le> c \<and> c \<le> hi)"
| "charset_matches U (Literal x) c = (c = x)"
| "charset_matches U Category_Digit c = is_digit U c"

definition in_charsets :: "unicode_db \<Rightarrow> charset list \<Rightarrow> codepoint \<Rightarrow> bool" where
  "in_charsets U cs c = list_ex (\<lambda>i. charset_matches U i c) cs"

text \<open>
  \<^verbatim>\<open>\b\<close> at a position: the character before it (\<open>None\<close> at the start of the text) and
  the character after it (none at the end) differ in being word characters.
\<close>

definition at_boundary :: "unicode_db \<Rightarrow> codepoint option \<Rightarrow> str \<Rightarrow> bool" where
  "at_boundary U prev rest \<longleftrightarrow>
     (case prev of None \<Rightarrow> False | Some c \<Rightarrow> is_word U c)
       \<noteq> (case rest of [] \<Rightarrow> False | c # _ \<Rightarrow> is_word U c)"

text \<open>The character before the position reached after matching \<open>t\<close>.\<close>

definition prev_after :: "codepoint option \<Rightarrow> str \<Rightarrow> codepoint option" where
  "prev_after prev t = (if t = [] then prev else Some (last t))"

fun first_some :: "'a option list \<Rightarrow> 'a option" where
  "first_some [] = None"
| "first_some (None # xs) = first_some xs"
| "first_some (Some x # xs) = Some x"

text \<open>
  \<open>sre_match U p prev s\<close> matches \<open>p\<close> at the start of \<open>s\<close>, the text from the current
  position on, \<open>prev\<close> being the character before it. It returns the matched text, or
  \<open>None\<close> when every alternative has failed.
\<close>

fun sre_match :: "unicode_db \<Rightarrow> pattern \<Rightarrow> codepoint option \<Rightarrow> str \<Rightarrow> str option" where
  "sre_match U [] prev s = Some []"
| "sre_match U (At_Boundary # p) prev s =
     (if at_boundary U prev s then sre_match U p prev s else None)"
| "sre_match U (Max_Repeat lo hi cs # p) prev s =
     (let avail = length (takeWhile (in_charsets U cs) s);
          most = (case hi of None \<Rightarrow> avail | Some h \<Rightarrow> min h avail)
      in first_some
           (map (\<lambda>k. map_option ((@) (take k s))
                        (sre_match U p (prev_after prev (take k s)) (drop k s)))
                (rev [lo ..< Suc most])))"

text \<open>
  \<^verbatim>\<open>re.findall\<close>: the scan from left to right. A match is reported and the scan goes
  on after it; where nothing matches the scan moves on by one character. (An empty match
  is reported and the scan moves on by one character; the pattern of this program
  matches no empty string.)
\<close>

function findall_from :: "unicode_db \<Rightarrow> pattern \<Rightarrow> codepoint option \<Rightarrow> str \<Rightarrow> str list" where
  "findall_from U p prev s =
     (case sre_match U p prev s of
        None \<Rightarrow> (case s of [] \<Rightarrow> [] | c # t \<Rightarrow> findall_from U p (Some c) t)
      | Some m \<Rightarrow>
          (if m = [] then [] # (case s of [] \<Rightarrow> [] | c # t \<Rightarrow> findall_from U p (Some c) t)
           else m # findall_from U p (prev_after prev m) (drop (length m) s)))"
  by pat_completeness auto
termination
proof (relation "measure (\<lambda>(U, p, prev, s). length s)")
  have first_someD: "\<exists>x\<in>set xs. x = Some y" if "first_some xs = Some y"
    for xs :: "str option list" and y
    using that by (induction xs rule: first_some.induct) auto
  have pre: "prefix m s" if "sre_match U p prev s = Some m" for U p prev s m
    using that
  proof (induction p arbitrary: prev s m)
    case Nil
    then show ?case by simp
  next
    case (Cons n p)
    show ?case
    proof (cases n)
      case At_Boundary
      with Cons show ?thesis by (simp split: if_splits)
    next
      case (Max_Repeat lo hi cs)
      with Cons.prems obtain ks where
        "first_some (map (\<lambda>k. map_option ((@) (take k s))
            (sre_match U p (prev_after prev (take k s)) (drop k s))) ks) = Some m"
        by (simp add: Let_def)
      from first_someD [OF this] obtain k where
        "map_option ((@) (take k s)) (sre_match U p (prev_after prev (take k s)) (drop k s)) = Some m"
        by (auto dest!: sym [of "Some m"])
      then obtain m' where "sre_match U p (prev_after prev (take k s)) (drop k s) = Some m'"
        and m: "m = take k s @ m'"
        by auto
      then have "prefix m' (drop k s)" using Cons.IH by blast
      then have "prefix (take k s @ m') (take k s @ drop k s)" by (simp only: same_prefix_prefix)
      with m show ?thesis by simp
    qed
  qed
  fix U :: unicode_db and p :: pattern and prev :: "codepoint option" and s m :: str
  assume "sre_match U p prev s = Some m" "m \<noteq> []"
  then have "prefix m s" "m \<noteq> []" using pre by blast+
  then have "s \<noteq> []" by auto
  with \<open>m \<noteq> []\<close>
  show "((U, p, prev_after prev m, drop (length m) s), (U, p, prev, s))
          \<in> measure (\<lambda>(U, p, prev, s). length s)"
    by simp
qed simp_all

declare findall_from.simps [simp del]

definition findall :: "unicode_db \<Rightarrow> pattern \<Rightarrow> str \<Rightarrow> str list" where
  "findall U p text = findall_from U p None text"

text \<open>\<^verbatim>\<open>\b[A-Za-z]+-?\d+\b\<close>\<close>

definition error_code_pattern :: pattern where
  "error_code_pattern =
     [At_Boundary,
      Max_Repeat 1 None [Range (ord CHR ''A'') (ord CHR ''Z''), Range (ord CHR ''a'') (ord CHR ''z'')],
      Max_Repeat 0 (Some 1) [Literal (ord CHR ''-'')],
      Max_Repeat 1 None [Category_Digit],
      At_Boundary]"

definition extract_error_codes :: "unicode_db \<Rightarrow> str \<Rightarrow> str list" where
  "extract_error_codes U text = findall U error_code_pattern text"

subsection \<open>The codes of a text, stated on positions\<close>

text \<open>
  What the extractor is to return, in the words of its contract: \<open>code_at U s i j\<close> says
  that the characters of \<open>s\<close> from position \<open>i\<close> up to, not including, position \<open>j\<close>
  are one or more letters of the pattern, an optional hyphen and one or more digits, and
  that \<open>i\<close> and \<open>j\<close> are word edges of \<open>s\<close>. \<open>all_codes\<close> lists these substrings by
  position.
\<close>

definition slice :: "str \<Rightarrow> nat \<Rightarrow> nat \<Rightarrow> str" where
  "slice s i j = take (j - i) (drop i s)"

definition word_edge :: "unicode_db \<Rightarrow> str \<Rightarrow> nat \<Rightarrow> bool" where
  "word_edge U s p \<longleftrightarrow>
     (0 < p \<and> is_word U (s ! (p - 1))) \<noteq> (p < length s \<and> is_word U (s ! p))"

definition code_shaped :: "unicode_db \<Rightarrow> str \<Rightarrow> bool" where
  "code_shaped U t \<longleftrightarrow>
     (\<exists>letters hyphen digits. t = letters @ hyphen @ digits
        \<and> letters \<noteq> [] \<and> list_all is_letter letters
        \<and> (hyphen = [] \<or> hyphen = [ord CHR ''-''])
        \<and> digits \<noteq> [] \<and> list_all (is_digit U) digits)"

definition code_at :: "unicode_db \<Rightarrow> str \<Rightarrow> nat \<Rightarrow> nat \<Rightarrow> bool" where
  "code_at U s i j \<longleftrightarrow>
     i < j \<and> j \<le> length s \<and> code_shaped U (slice s i j) \<and> word_edge U s i \<and> word_edge U s j"

definition all_codes :: "unicode_db \<Rightarrow> str \<Rightarrow> str list" where
  "all_codes U s =
     [slice s i j. i \<leftarrow> [0 ..< length s], j \<leftarrow> [Suc i ..< Suc (length s)], code_at U s i j]"

text \<open>The codes that start at position \<open>i\<close>.\<close>

definition codes_from :: "unicode_db \<Rightarrow> str \<Rightarrow> nat \<Rightarrow> str list" where
  "codes_from U s i = [slice s i j. j \<leftarrow> [Suc i ..< Suc (length s)], code_at U s i j]"

text \<open>
  The same token read off directly at one position, without search: the longest run of
  letters, a hyphen if one follows, the longest run of digits, between two boundaries.
\<close>

definition code_prefix :: "unicode_db \<Rightarrow> codepoint option \<Rightarrow> str \<Rightarrow> str option" where
  "code_prefix U prev s =
     (let letters = takeWhile is_letter s;
          r1 = dropWhile is_letter s;
          hyphen = takeWhile (\<lambda>c. c = ord CHR ''-'') (take 1 r1);
          r2 = drop (length hyphen) r1;
          digits = takeWhile (is_digit U) r2;
          r3 = dropWhile (is_digit U) r2
      in if at_boundary U prev s \<and> letters \<noteq> [] \<and> digits \<noteq> []
            \<and> at_boundary U (Some (last digits)) r3
         then Some (letters @ hyphen @ digits) else None)"

definition prev_at :: "str \<Rightarrow> nat \<Rightarrow> codepoint option" where
  "prev_at s i = (if i = 0 then None else Some (s ! (i - 1)))"

section \<open>Renderings of Python values\<close>

definition backslash :: codepoint where "backslash = 0x5C"
definition single_quote :: codepoint where "single_quote = 0x27"
definition double_quote :: codepoint where "double_quote = 0x22"
definition newline :: codepoint where "newline = 0x0A"

definition hex_digit :: "nat \<Rightarrow> codepoint" where
  "hex_digit d = ustr ''0123456789abcdef'' ! (d mod 16)"

text \<open>The last \<open>width\<close> hexadecimal digits of \<open>n\<close>.\<close>

definition hex_fixed :: "nat \<Rightarrow> nat \<Rightarrow> str" where
  "hex_fixed width n = map (\<lambda>k. hex_digit (n div 16 ^ k)) (rev [0 ..< width])"

text \<open>
  \<^verbatim>\<open>repr\<close> of a string: single quotes, unless the string holds a single quote and no
  double quote; the quote and the backslash are escaped, tab, line feed and carriage
  return are written \<^verbatim>\<open>\t\<close>, \<^verbatim>\<open>\n\<close>, \<^verbatim>\<open>\r\<close>, the other ASCII control characters and the
  non-printable characters beyond ASCII are written \<^verbatim>\<open>\xNN\<close>, \<^verbatim>\<open>\uNNNN\<close> or
  \<^verbatim>\<open>\UNNNNNNNN\<close>, everything else is copied.
\<close>

definition repr_char :: "unicode_db \<Rightarrow> codepoint \<Rightarrow> codepoint \<Rightarrow> str" where
  "repr_char U quote c =
     (if c = quote \<or> c = backslash then [backslash, c]
      else if c = 0x09 then [backslash, ord CHR ''t'']
      else if c = newline then [backslash, ord CHR ''n'']
      else if c = 0x0D then [backslash, ord CHR ''r'']
      else if c < 0x20 \<or> c = 0x7F then [backslash, ord CHR ''x''] @ hex_fixed 2 c
      else if c < 0x7F then [c]
      else if isprintable U c then [c]
      else if c \<le> 0xFF then [backslash, ord CHR ''x''] @ hex_fixed 2 c
      else if c \<le> 0xFFFF then [backslash, ord CHR ''u''] @ hex_fixed 4 c
      else [backslash, ord CHR ''U''] @ hex_fixed 8 c)"

definition repr_str :: "unicode_db \<Rightarrow> str \<Rightarrow> str" where
  "repr_str U s =
     (let quote = (if single_quote \<in> set s \<and> double_quote \<notin> set s
                   then double_quote else single_quote)
      in [quote] @ concat (map (repr_char U quote) s) @ [quote])"

text \<open>\<^verbatim>\<open>str\<close> of a list of strings and of a dictionary from strings to strings.\<close>

definition str_list :: "unicode_db \<Rightarrow> str list \<Rightarrow> str" where
  "str_list U xs = ustr ''['' @ join (ustr '', '') (map (repr_str U) xs) @ ustr '']''"

definition str_dict :: "unicode_db \<Rightarrow> (str \<times> str) list \<Rightarrow> str" where
  "str_dict U d =
     ustr ''{''
     @ join (ustr '', '') (map (\<lambda>(k, v). repr_str U k @ ustr '': '' @ repr_str U v) d)
     @ ustr ''}''"

text \<open>
  A plain string is one that \<^verbatim>\<open>repr\<close> copies unchanged between two single quotes: it
  holds no single quote, no backslash, no control character and nothing unprintable.
\<close>

definition plain :: "unicode_db \<Rightarrow> str \<Rightarrow> bool" where
  "plain U v \<longleftrightarrow>
     (\<forall>c\<in>set v. c \<noteq> single_quote \<and> c \<noteq> backslash \<and> 0x20 \<le> c \<and> c \<noteq> 0x7F
        \<and> (c < 0x7F \<or> isprintable U c))"

section \<open>Passages and the reranking of \<^verbatim>\<open>get_solution\<close>\<close>

text \<open>
  A retrieved document has its text and its metadata, a dictionary (kept as the list of
  its items in insertion order, which is the order \<^verbatim>\<open>str\<close> renders them in).
\<close>

record passage =
  page_content :: str
  metadata :: "(str \<times> str) list"

text \<open>Line 72: the text and the rendered metadata, normalised like a code.\<close>

definition doc_blob :: "unicode_db \<Rightarrow> passage \<Rightarrow> str" where
  "doc_blob U doc = upper U (remove_hyphens (page_content doc @ str_dict U (metadata doc)))"

text \<open>Line 75: \<^verbatim>\<open>any(code in doc_blob for code in norm_query_codes)\<close>\<close>

definition any_code_in :: "unicode_db \<Rightarrow> str list \<Rightarrow> passage \<Rightarrow> bool" where
  "any_code_in U norm_query_codes doc =
     list_ex (\<lambda>code. str_contains code (doc_blob U doc)) norm_query_codes"

text \<open>Lines 69 to 78: the loop over \<^verbatim>\<open>raw_docs\<close>, appending to one of two lists.\<close>

fun partition_docs ::
  "unicode_db \<Rightarrow> str list \<Rightarrow> passage list \<Rightarrow> passage list \<times> passage list
     \<Rightarrow> passage list \<times> passage list"
where
  "partition_docs U norm_query_codes [] (priority_docs, other_docs) = (priority_docs, other_docs)"
| "partition_docs U norm_query_codes (doc # raw_docs) (priority_docs, other_docs) =
     (if any_code_in U norm_query_codes doc
      then partition_docs U norm_query_codes raw_docs (priority_docs @ [doc], other_docs)
      else partition_docs U norm_query_codes raw_docs (priority_docs, other_docs @ [doc]))"

text \<open>Lines 57 to 83: \<^verbatim>\<open>final_docs\<close> before it is trimmed.\<close>

definition rerank :: "unicode_db \<Rightarrow> str \<Rightarrow> passage list \<Rightarrow> passage list" where
  "rerank U query raw_docs =
     (let query_codes = extract_error_codes U query in
      if query_codes \<noteq> [] then
        (let norm_query_codes = map (normalize_code U) query_codes;
             (priority_docs, other_docs) = partition_docs U norm_query_codes raw_docs ([], [])
         in priority_docs @ other_docs)
      else raw_docs)"

text \<open>
  A passage matches a query when the test of line 75 holds of it for the normalised
  codes of the query (line 67).
\<close>

definition matches_query :: "unicode_db \<Rightarrow> str \<Rightarrow> passage \<Rightarrow> bool" where
  "matches_query U query doc =
     any_code_in U (map (normalize_code U) (extract_error_codes U query)) doc"

text \<open>Line 86: \<^verbatim>\<open>final_docs[:3]\<close>, the list the prompt is built from.\<close>

definition final_docs :: "unicode_db \<Rightarrow> str \<Rightarrow> passage list \<Rightarrow> passage list" where
  "final_docs U query raw_docs = take 3 (rerank U query raw_docs)"

section \<open>The engine\<close>

text \<open>
  The vector store and the language model are outside the repository. The engine holds
  them as two functions that return a value or raise; an exception is its class and
  its message (\<^verbatim>\<open>str(e)\<close>). Every class here derives from \<^verbatim>\<open>Exception\<close>, which is what
  the two handlers catch. \<open>generate_content\<close> stands for the call and the reading of
  \<^verbatim>\<open>response.text\<close>.
\<close>

datatype py_exception = Exception str | ValueError str

fun message :: "py_exception \<Rightarrow> str" where
  "message (Exception m) = m"
| "message (ValueError m) = m"

record engine =
  similarity_search :: "str \<Rightarrow> nat \<Rightarrow> py_exception + passage list"
  generate_content :: "str \<Rightarrow> py_exception + str"

text \<open>
  \<^verbatim>\<open>__init__\<close>: \<^verbatim>\<open>os.getenv\<close> reads the environment, a missing or empty key raises, and
  only then are the clients built (lines 21 to 34, the parameter \<open>connect\<close>) from the key.
\<close>

definition init ::
  "(str \<rightharpoonup> str) \<Rightarrow> (str \<Rightarrow> py_exception + engine) \<Rightarrow> py_exception + engine"
where
  "init environ connect =
     (case environ (ustr ''GEMINI_API_KEY'') of
        None \<Rightarrow> Inl (ValueError (ustr ''GEMINI_API_KEY not found.''))
      | Some api_key \<Rightarrow>
          if api_key = [] then Inl (ValueError (ustr ''GEMINI_API_KEY not found.''))
          else connect api_key)"

text \<open>What a call does besides returning: the calls to the two clients and the printing.\<close>

datatype event = Similarity_Search str nat | Print str | Generate_Content str


record solution_result =
  answer :: str
  source_documents :: "passage list"

definition indent :: str where
  "indent = replicate 12 (ord CHR '' '')"

text \<open>Lines 92 to 97.\<close>

definition chunk_text :: "nat \<Rightarrow> passage \<Rightarrow> str" where
  "chunk_text i doc =
     ustr ''Context Chunk '' @ str_nat i @ ustr '':'' @ [newline] @ page_content doc @ [newline]"

definition context_str :: "passage list \<Rightarrow> str" where
  "context_str docs =
     join ([newline] @ ustr ''---'' @ [newline])
       (map (\<lambda>(i, doc). chunk_text i doc) (zip [1 ..< Suc (length docs)] docs))"

text \<open>Lines 99 to 109.\<close>

definition solution_prompt :: "passage list \<Rightarrow> str \<Rightarrow> str" where
  "solution_prompt docs query =
     [newline] @ indent @ ustr ''You are a Level 3 Field Engineer. ''
     @ [newline] @ indent @ ustr ''Use ONLY the context below to answer. ''
     @ [newline] @ indent
     @ [newline] @ indent @ ustr ''Context: ''
     @ [newline] @ indent @ context_str docs
     @ [newline] @ indent
     @ [newline] @ indent @ ustr ''Question: '' @ query
     @ [newline] @ indent
     @ [newline] @ indent @ ustr ''If the answer is not in the context, say '' @ [double_quote]
       @ ustr ''Procedure not found in standard operating manual.'' @ [double_quote]
     @ [newline] @ indent"

text \<open>
  The body of the \<^verbatim>\<open>try\<close> of \<^verbatim>\<open>get_solution\<close>: the events so far and either the exception
  that left the body or the value it returned.
\<close>

definition get_solution_try ::
  "unicode_db \<Rightarrow> engine \<Rightarrow> str \<Rightarrow> event list \<times> (py_exception + solution_result)"
where
  "get_solution_try U self query =
     (case similarity_search self query 10 of
        Inl e \<Rightarrow> ([Similarity_Search query 10], Inl e)
      | Inr raw_docs \<Rightarrow>
          (let query_codes = extract_error_codes U query;
               printed = (if query_codes \<noteq> []
                          then [Print (ustr ''DEBUG: Detected specific Error Codes in query: ''
                                        @ str_list U query_codes)]
                          else []);
               docs = final_docs U query raw_docs
           in if docs = [] then
                ([Similarity_Search query 10] @ printed,
                 Inr \<lparr>answer = ustr ''No relevant information found.'', source_documents = []\<rparr>)
              else
                (let prompt = solution_prompt docs query;
                     events = [Similarity_Search query 10] @ printed @ [Generate_Content prompt]
                 in case generate_content self prompt of
                      Inl e \<Rightarrow> (events, Inl e)
                    | Inr text \<Rightarrow> (events, Inr \<lparr>answer = text, source_documents = docs\<rparr>))))"

text \<open>\<^verbatim>\<open>get_solution\<close> with its handler (lines 118 and 119).\<close>

definition get_solution :: "unicode_db \<Rightarrow> engine \<Rightarrow> str \<Rightarrow> event list \<times> solution_result" where
  "get_solution U self query =
     (case get_solution_try U self query of
        (events, Inl e) \<Rightarrow>
          (events, \<lparr>answer = ustr ''Error processing request: '' @ message e,
                    source_documents = []\<rparr>)
      | (events, Inr result) \<Rightarrow> (events, result))"

text \<open>Lines 126 to 131.\<close>

definition baseline_prompt :: "str \<Rightarrow> str" where
  "baseline_prompt query =
     [newline] @ indent @ ustr ''You are a helpful technical support assistant.''
     @ [newline] @ indent
       @ ustr ''The user is asking a technical question about a telecom base station.''
     @ [newline] @ indent @ ustr ''Question: '' @ query
     @ [newline] @ indent @ ustr ''Provide a technical resolution step-by-step.''
     @ [newline] @ indent"

definition get_baseline_response_try ::
  "engine \<Rightarrow> str \<Rightarrow> event list \<times> (py_exception + str)"
where
  "get_baseline_response_try self query =
     (let prompt = baseline_prompt query
      in ([Generate_Content prompt], generate_content self prompt))"

definition get_baseline_response :: "engine \<Rightarrow> str \<Rightarrow> event list \<times> str" where
  "get_baseline_response self query =
     (case get_baseline_response_try self query of
        (events, Inl e) \<Rightarrow> (events, ustr ''Error generating baseline: '' @ message e)
      | (events, Inr text) \<Rightarrow> (events, text))"

section \<open>The database on ASCII and on Latin-1\<close>

lemma ascii_toupper:
  "ascii_part U \<Longrightarrow> c < 128 \<Longrightarrow> toupper U c = [if is_lower c then c - 32 else c]"
  by (simp add: ascii_part_def)

lemma ascii_isdecimal: "ascii_part U \<Longrightarrow> c < 128 \<Longrightarrow> isdecimal U c \<longleftrightarrow> is_ascii_digit c"
  by (simp add: ascii_part_def)

lemma ascii_isalnum:
  "ascii_part U \<Longrightarrow> c < 128 \<Longrightarrow> isalnum U c \<longleftrightarrow> is_letter c \<or> is_ascii_digit c"
  by (auto simp: ascii_part_def isalnum_def)

lemma letter_ascii: "is_letter c \<Longrightarrow> c < 128"
  by (auto simp: is_letter_def is_upper_def is_lower_def ord_def)

lemma ascii_part_latin1: "ascii_part latin1_db"
  unfolding ascii_part_def latin1_db_def
  by (auto simp: latin1_alpha_def latin1_upper_def is_letter_def is_upper_def is_lower_def ord_def)

lemma upper_stable_latin1: "upper_stable latin1_db"
proof -
  have "upper latin1_db (latin1_upper c) = latin1_upper c" for c
    by (auto simp: upper_def latin1_db_def latin1_upper_def is_lower_def ord_def)
  moreover have "ord CHR ''-'' \<notin> set (latin1_upper c)" if "c \<noteq> ord CHR ''-''" for c
    using that by (auto simp: latin1_upper_def is_lower_def ord_def)
  ultimately show ?thesis
    by (simp add: upper_stable_def latin1_db_def)
qed

section \<open>Normalisation of codes\<close>

lemma upper_append: "upper U (a @ b) = upper U a @ upper U b"
  by (simp add: upper_def)

lemma upper_idem:
  assumes "upper_stable U"
  shows "upper U (upper U s) = upper U s"
proof (induction s)
  case Nil
  show ?case by (simp add: upper_def)
next
  case (Cons c s)
  have "upper U (c # s) = toupper U c @ upper U s"
    by (simp add: upper_def)
  moreover have "upper U (toupper U c) = toupper U c"
    using assms by (simp add: upper_stable_def)
  ultimately show ?case
    by (simp add: upper_append Cons.IH)
qed

lemma remove_hyphens_append: "remove_hyphens (a @ b) = remove_hyphens a @ remove_hyphens b"
  by (simp add: remove_hyphens_def)

lemma remove_hyphens_upper:
  assumes "ascii_part U" and "upper_stable U"
  shows "remove_hyphens (upper U s) = upper U (remove_hyphens s)"
proof (induction s)
  case Nil
  show ?case by (simp add: upper_def remove_hyphens_def)
next
  case (Cons c s)
  have split: "upper U (c # s) = toupper U c @ upper U s"
    by (simp add: upper_def)
  have step: "remove_hyphens (upper U (c # s))
      = remove_hyphens (toupper U c) @ upper U (remove_hyphens s)"
    by (simp add: split remove_hyphens_append Cons.IH)
  show ?case
  proof (cases "c = ord CHR ''-''")
    case True
    then have "toupper U c = [ord CHR ''-'']"
      using ascii_toupper [OF assms(1), of c] by (simp add: is_lower_def ord_def)
    then have "remove_hyphens (toupper U c) = []"
      by (simp add: remove_hyphens_def)
    moreover have "remove_hyphens (c # s) = remove_hyphens s"
      using True by (simp add: remove_hyphens_def)
    ultimately show ?thesis
      by (simp only: step append_Nil)
  next
    case False
    then have "ord CHR ''-'' \<notin> set (toupper U c)"
      using assms(2) by (simp add: upper_stable_def)
    then have "remove_hyphens (toupper U c) = toupper U c"
      by (auto simp: remove_hyphens_def filter_id_conv)
    moreover have "remove_hyphens (c # s) = c # remove_hyphens s"
      using False by (simp add: remove_hyphens_def)
    moreover have "upper U (c # remove_hyphens s) = toupper U c @ upper U (remove_hyphens s)"
      by (simp add: upper_def)
    ultimately show ?thesis
      by (simp only: step)
  qed
qed

lemma remove_hyphens_idem: "remove_hyphens (remove_hyphens s) = remove_hyphens s"
  by (simp add: remove_hyphens_def)

lemma upper_ascii:
  assumes "ascii_part U" and "\<forall>c\<in>set s. c < 128"
  shows "upper U s = map (\<lambda>c. if is_lower c then c - 32 else c) s"
  using assms(2) by (induction s) (simp_all add: upper_def ascii_toupper [OF assms(1)])

text \<open>
  C6. Normalising a code (removing every hyphen, then upper-casing) a second time changes
  nothing, and the two spellings \<^verbatim>\<open>S-304\<close> and \<^verbatim>\<open>s304\<close> of one code both normalise to
  \<^verbatim>\<open>S304\<close>. This holds for every string and with every Unicode database that is ASCII on
  the ASCII code points and whose upper-case mapping is stable, as Python's is.
\<close>

theorem normalize_code_idempotent:
  assumes "ascii_part U" and "upper_stable U"
  shows "normalize_code U (normalize_code U c) = normalize_code U c
   \<and> normalize_code U (ustr ''S-304'') = ustr ''S304''
   \<and> normalize_code U (ustr ''s304'') = ustr ''S304''"
proof -
  have "normalize_code U (normalize_code U c) = normalize_code U c"
    by (simp add: normalize_code_def remove_hyphens_upper [OF assms] upper_idem [OF assms(2)]
        remove_hyphens_idem)
  moreover have "normalize_code U (ustr ''S-304'') = ustr ''S304''"
    by (simp add: normalize_code_def remove_hyphens_def ustr_def ord_def
        upper_ascii [OF assms(1)] is_lower_def)
  moreover have "normalize_code U (ustr ''s304'') = ustr ''S304''"
    by (simp add: normalize_code_def remove_hyphens_def ustr_def ord_def
        upper_ascii [OF assms(1)] is_lower_def)
  ultimately show ?thesis by simp
qed

text \<open>
  With the database of Latin-1: the sharp s becomes \<^verbatim>\<open>SS\<close>, which normalising again
  leaves alone.
\<close>

theorem normalize_code_idempotent_witness:
  "ascii_part latin1_db \<and> upper_stable latin1_db
   \<and> normalize_code latin1_db ([0xDF] @ ustr ''-30'') = ustr ''SS30''
   \<and> normalize_code latin1_db (normalize_code latin1_db ([0xDF] @ ustr ''-30''))
       = normalize_code latin1_db ([0xDF] @ ustr ''-30'')
   \<and> normalize_code latin1_db (ustr ''S-304'') = normalize_code latin1_db (ustr ''s304'')"
proof -
  have v: "normalize_code latin1_db ([0xDF] @ ustr ''-30'') = ustr ''SS30''"
    by code_simp
  from normalize_code_idempotent [OF ascii_part_latin1 upper_stable_latin1, of "[0xDF] @ ustr ''-30''"]
    v ascii_part_latin1 upper_stable_latin1
  show ?thesis by simp
qed

section \<open>The error-code extractor\<close>

lemma letter_not_digit: "ascii_part U \<Longrightarrow> is_letter c \<Longrightarrow> \<not> is_digit U c"
  using ascii_isdecimal [of U c] letter_ascii [of c]
  by (auto simp: is_digit_def is_letter_def is_upper_def is_lower_def is_ascii_digit_def ord_def)

lemma letter_not_hyphen: "is_letter c \<Longrightarrow> c \<noteq> ord CHR ''-''"
  by (auto simp: is_letter_def is_upper_def is_lower_def ord_def)

lemma digit_not_hyphen: "ascii_part U \<Longrightarrow> is_digit U c \<Longrightarrow> c \<noteq> ord CHR ''-''"
  using ascii_isdecimal [of U "ord CHR ''-''"]
  by (auto simp: is_digit_def is_ascii_digit_def ord_def)

lemma letter_word: "ascii_part U \<Longrightarrow> is_letter c \<Longrightarrow> is_word U c"
  using ascii_isalnum [of U c] letter_ascii [of c] by (simp add: is_word_def)

lemma digit_word: "is_digit U c \<Longrightarrow> is_word U c"
  by (simp add: is_word_def isalnum_def is_digit_def)

lemma in_charsets_letters:
  "in_charsets U [Range (ord CHR ''A'') (ord CHR ''Z''), Range (ord CHR ''a'') (ord CHR ''z'')] = is_letter"
  by (rule ext) (simp add: in_charsets_def is_letter_def is_upper_def is_lower_def)

lemma in_charsets_hyphen: "in_charsets U [Literal (ord CHR ''-'')] = (\<lambda>c. c = ord CHR ''-'')"
  by (rule ext) (simp add: in_charsets_def)

lemma in_charsets_digits: "in_charsets U [Category_Digit] = is_digit U"
  by (rule ext) (simp add: in_charsets_def)

lemma first_some_all_None: "(\<And>x. x \<in> set xs \<Longrightarrow> x = None) \<Longrightarrow> first_some xs = None"
  by (induction xs rule: first_some.induct) auto

lemma first_some_greedy:
  assumes "\<And>k. lo \<le> k \<Longrightarrow> k < m \<Longrightarrow> f k = None"
  shows "first_some (map f (rev [lo ..< Suc m])) = (if lo \<le> m then f m else None)"
proof (cases "lo \<le> m")
  case True
  have rest: "first_some (map f (rev [lo ..< m])) = None"
    by (rule first_some_all_None) (use assms in auto)
  from True have "rev [lo ..< Suc m] = m # rev [lo ..< m]" by simp
  then show ?thesis using True rest by (cases "f m") simp_all
next
  case False
  then show ?thesis by simp
qed

text \<open>
  When giving characters back never lets the rest of the pattern match, a greedy
  repetition matches with the longest run or not at all.
\<close>

lemma sre_match_repeat_greedy:
  assumes "most = (case hi of None \<Rightarrow> length (takeWhile (in_charsets U cs) s)
                   | Some h \<Rightarrow> min h (length (takeWhile (in_charsets U cs) s)))"
    and "\<And>k. lo \<le> k \<Longrightarrow> k < most \<Longrightarrow> sre_match U p (prev_after prev (take k s)) (drop k s) = None"
  shows "sre_match U (Max_Repeat lo hi cs # p) prev s =
     (if lo \<le> most
      then map_option ((@) (take most s)) (sre_match U p (prev_after prev (take most s)) (drop most s))
      else None)"
proof -
  let ?f = "\<lambda>k. map_option ((@) (take k s)) (sre_match U p (prev_after prev (take k s)) (drop k s))"
  have "sre_match U (Max_Repeat lo hi cs # p) prev s = first_some (map ?f (rev [lo ..< Suc most]))"
    by (simp add: assms(1) Let_def)
  also have "\<dots> = (if lo \<le> most then ?f most else None)"
    by (rule first_some_greedy) (simp add: assms(2))
  finally show ?thesis .
qed

lemma take_takeWhile_length: "take (length (takeWhile P s)) s = takeWhile P s"
  by (rule takeWhile_eq_take [symmetric])

lemma drop_takeWhile_length: "drop (length (takeWhile P s)) s = dropWhile P s"
  by (rule dropWhile_eq_drop [symmetric])

lemma run_nth:
  assumes "k < length (takeWhile P s)"
  shows "k < length s" and "P (s ! k)"
proof -
  show ks: "k < length s"
    using assms length_takeWhile_le [of P s] by simp
  have "takeWhile P s ! k \<in> set (takeWhile P s)"
    using assms by (rule nth_mem)
  then have "P (takeWhile P s ! k)"
    by (rule set_takeWhileD [THEN conjunct2])
  then show "P (s ! k)"
    using assms by (simp add: takeWhile_nth)
qed

lemma inside_run:
  assumes "k < length (takeWhile P s)"
  shows "\<exists>c r. drop k s = c # r \<and> P c"
proof -
  from run_nth [OF assms] have "drop k s = s ! k # drop (Suc k) s" and "P (s ! k)"
    by (simp_all add: Cons_nth_drop_Suc)
  then show ?thesis by blast
qed

lemma prev_after_take:
  assumes "0 < k" and "k \<le> length (takeWhile P s)"
  shows "\<exists>c. prev_after prev (take k s) = Some c \<and> P c"
proof -
  from assms have "k - 1 < length (takeWhile P s)" by simp
  from run_nth [OF this] have ks: "k - 1 < length s" and p: "P (s ! (k - 1))" .
  from ks assms(1) have "k \<le> length s" by simp
  moreover from ks assms(1) have ne: "take k s \<noteq> []" by auto
  ultimately have "last (take k s) = s ! (k - 1)"
    by (simp add: last_conv_nth)
  with ne show ?thesis using p by (simp add: prev_after_def)
qed

lemma sre_match_boundary:
  "sre_match U [At_Boundary] prev s = (if at_boundary U prev s then Some [] else None)"
  by simp

lemma not_boundary_between_words:
  "is_word U a \<Longrightarrow> is_word U c \<Longrightarrow> \<not> at_boundary U (Some a) (c # r)"
  by (simp add: at_boundary_def)

lemma sre_match_digits:
  "sre_match U [Max_Repeat 1 None [Category_Digit], At_Boundary] prev s =
     (if takeWhile (is_digit U) s \<noteq> []
         \<and> at_boundary U (Some (last (takeWhile (is_digit U) s))) (dropWhile (is_digit U) s)
      then Some (takeWhile (is_digit U) s) else None)"
proof -
  let ?m = "length (takeWhile (is_digit U) s)"
  have none: "sre_match U [At_Boundary] (prev_after prev (take k s)) (drop k s) = None"
    if "1 \<le> k" "k < ?m" for k
  proof -
    from that obtain a where a: "prev_after prev (take k s) = Some a" "is_digit U a"
      using prev_after_take [of k "is_digit U" s prev] by auto
    from that obtain c r where c: "drop k s = c # r" "is_digit U c"
      using inside_run [of k "is_digit U" s] by auto
    from a c show ?thesis
      by (simp add: not_boundary_between_words digit_word)
  qed
  have "sre_match U [Max_Repeat 1 None [Category_Digit], At_Boundary] prev s =
     (if 1 \<le> ?m
      then map_option ((@) (take ?m s))
             (sre_match U [At_Boundary] (prev_after prev (take ?m s)) (drop ?m s))
      else None)"
  proof (rule sre_match_repeat_greedy)
    show "?m = (case None of None \<Rightarrow> length (takeWhile (in_charsets U [Category_Digit]) s)
                | Some h \<Rightarrow> min h (length (takeWhile (in_charsets U [Category_Digit]) s)))"
      by (simp only: in_charsets_digits option.case)
    show "sre_match U [At_Boundary] (prev_after prev (take k s)) (drop k s) = None"
      if "1 \<le> k" "k < ?m" for k
      using that by (rule none)
  qed
  also have "\<dots> = (if takeWhile (is_digit U) s \<noteq> []
         \<and> at_boundary U (Some (last (takeWhile (is_digit U) s))) (dropWhile (is_digit U) s)
      then Some (takeWhile (is_digit U) s) else None)"
    by (cases "takeWhile (is_digit U) s = []")
       (simp_all add: take_takeWhile_length drop_takeWhile_length prev_after_def Suc_le_eq)
  finally show ?thesis .
qed

lemma sre_match_digits_None:
  "\<not> is_digit U c \<Longrightarrow> sre_match U [Max_Repeat 1 None [Category_Digit], At_Boundary] prev (c # r) = None"
  by (simp only: sre_match_digits) simp

lemma sre_match_hyphen_digits:
  assumes U: "ascii_part U"
  shows "sre_match U [Max_Repeat 0 (Some 1) [Literal (ord CHR ''-'')], Max_Repeat 1 None [Category_Digit], At_Boundary]
     prev s =
   map_option ((@) (takeWhile (\<lambda>c. c = ord CHR ''-'') (take 1 s)))
     (sre_match U [Max_Repeat 1 None [Category_Digit], At_Boundary]
        (prev_after prev (takeWhile (\<lambda>c. c = ord CHR ''-'') (take 1 s)))
        (drop (length (takeWhile (\<lambda>c. c = ord CHR ''-'') (take 1 s))) s))"
proof -
  let ?h = "takeWhile (\<lambda>c. c = ord CHR ''-'') (take 1 s)"
  let ?most = "min 1 (length (takeWhile (\<lambda>c. c = ord CHR ''-'') s))"
  let ?rest = "[Max_Repeat 1 None [Category_Digit], At_Boundary]"
  have most: "?most = length ?h"
    by (cases s) auto
  have take_h: "take (length ?h) s = ?h"
    by (cases s) auto
  have none: "sre_match U ?rest (prev_after prev (take k s)) (drop k s) = None"
    if "k < ?most" for k
  proof -
    from that have "k = 0" and "s \<noteq> []" by auto
    with that obtain r where "s = ord CHR ''-'' # r"
      by (cases s) (auto split: if_splits)
    with \<open>k = 0\<close> show ?thesis
      by (simp only: take_0 drop_0) (rule sre_match_digits_None, use digit_not_hyphen [OF U] in blast)
  qed
  have "sre_match U (Max_Repeat 0 (Some 1) [Literal (ord CHR ''-'')] # ?rest) prev s =
     (if 0 \<le> ?most
      then map_option ((@) (take ?most s)) (sre_match U ?rest (prev_after prev (take ?most s)) (drop ?most s))
      else None)"
  proof (rule sre_match_repeat_greedy)
    show "?most = (case Some 1 of None \<Rightarrow> length (takeWhile (in_charsets U [Literal (ord CHR ''-'')]) s)
                | Some h \<Rightarrow> min h (length (takeWhile (in_charsets U [Literal (ord CHR ''-'')]) s)))"
      by (simp only: in_charsets_hyphen option.case)
    show "sre_match U ?rest (prev_after prev (take k s)) (drop k s) = None"
      if "0 \<le> k" "k < ?most" for k
      using that(2) by (rule none)
  qed
  then show ?thesis
    by (simp only: most take_h) simp
qed

lemma sre_match_hyphen_digits_None:
  assumes U: "ascii_part U" and "is_letter c"
  shows "sre_match U [Max_Repeat 0 (Some 1) [Literal (ord CHR ''-'')], Max_Repeat 1 None [Category_Digit], At_Boundary]
     prev (c # r) = None"
proof -
  from assms(2) have nd: "\<not> is_digit U c"
    by (rule letter_not_digit [OF U])
  from assms(2) have h: "takeWhile (\<lambda>c. c = ord CHR ''-'') (take 1 (c # r)) = []"
    by (simp add: letter_not_hyphen)
  show ?thesis
    by (simp only: sre_match_hyphen_digits [OF U] h list.size drop_0 sre_match_digits_None [OF nd] option.map)
qed

lemma sre_match_letters:
  assumes U: "ascii_part U"
  shows "sre_match U [Max_Repeat 1 None [Range (ord CHR ''A'') (ord CHR ''Z''), Range (ord CHR ''a'') (ord CHR ''z'')],
      Max_Repeat 0 (Some 1) [Literal (ord CHR ''-'')], Max_Repeat 1 None [Category_Digit], At_Boundary] prev s =
     (if takeWhile is_letter s \<noteq> []
      then map_option ((@) (takeWhile is_letter s))
        (sre_match U [Max_Repeat 0 (Some 1) [Literal (ord CHR ''-'')], Max_Repeat 1 None [Category_Digit], At_Boundary]
           (Some (last (takeWhile is_letter s))) (dropWhile is_letter s))
      else None)"
proof -
  let ?m = "length (takeWhile is_letter s)"
  let ?rest = "[Max_Repeat 0 (Some 1) [Literal (ord CHR ''-'')], Max_Repeat 1 None [Category_Digit], At_Boundary]"
  have none: "sre_match U ?rest (prev_after prev (take k s)) (drop k s) = None" if "k < ?m" for k
  proof -
    from that obtain c r where c: "drop k s = c # r" "is_letter c"
      using inside_run [of k is_letter s] by auto
    then show ?thesis
      by (simp only: sre_match_hyphen_digits_None [OF U])
  qed
  have "sre_match U (Max_Repeat 1 None [Range (ord CHR ''A'') (ord CHR ''Z''), Range (ord CHR ''a'') (ord CHR ''z'')] # ?rest) prev s =
     (if 1 \<le> ?m
      then map_option ((@) (take ?m s)) (sre_match U ?rest (prev_after prev (take ?m s)) (drop ?m s))
      else None)"
  proof (rule sre_match_repeat_greedy)
    show "?m = (case None of None \<Rightarrow> length (takeWhile (in_charsets U [Range (ord CHR ''A'') (ord CHR ''Z''), Range (ord CHR ''a'') (ord CHR ''z'')]) s)
                | Some h \<Rightarrow> min h (length (takeWhile (in_charsets U [Range (ord CHR ''A'') (ord CHR ''Z''), Range (ord CHR ''a'') (ord CHR ''z'')]) s)))"
      by (simp only: in_charsets_letters option.case)
    show "sre_match U ?rest (prev_after prev (take k s)) (drop k s) = None"
      if "1 \<le> k" "k < ?m" for k
      using that(2) by (rule none)
  qed
  then show ?thesis
    by (cases "takeWhile is_letter s = []")
       (simp_all add: take_takeWhile_length drop_takeWhile_length prev_after_def Suc_le_eq
          del: sre_match.simps)
qed

text \<open>
  On the pattern of the program the backtracking search finds what a single reading
  from left to right finds.
\<close>

lemma sre_match_error_code_pattern:
  assumes U: "ascii_part U"
  shows "sre_match U error_code_pattern prev s = code_prefix U prev s"
proof -
  have "sre_match U error_code_pattern prev s =
    (if at_boundary U prev s then
       sre_match U [Max_Repeat 1 None [Range (ord CHR ''A'') (ord CHR ''Z''), Range (ord CHR ''a'') (ord CHR ''z'')],
         Max_Repeat 0 (Some 1) [Literal (ord CHR ''-'')], Max_Repeat 1 None [Category_Digit], At_Boundary] prev s
     else None)"
    by (simp only: error_code_pattern_def sre_match.simps)
  also have "\<dots> = code_prefix U prev s"
    by (simp only: sre_match_letters [OF U] sre_match_hyphen_digits [OF U] sre_match_digits)
       (auto simp: code_prefix_def Let_def prev_after_def simp del: sre_match.simps)
  finally show ?thesis .
qed

lemma hyphen_take1:
  "takeWhile (\<lambda>c. c = ord CHR ''-'') (take 1 r) = [] \<or> takeWhile (\<lambda>c. c = ord CHR ''-'') (take 1 r) = [ord CHR ''-'']"
  by (cases r) auto

lemma hyphen_take1_split:
  "takeWhile (\<lambda>c. c = ord CHR ''-'') (take 1 r) @ drop (length (takeWhile (\<lambda>c. c = ord CHR ''-'') (take 1 r))) r = r"
  by (cases r) auto

lemma list_all_takeWhile: "list_all P (takeWhile P s)"
  by (induction s) simp_all

lemma code_prefix_SomeD:
  assumes "code_prefix U prev s = Some t"
  shows "t \<noteq> []" and "code_shaped U t" and "at_boundary U prev s"
    and "\<exists>r. s = t @ r \<and> at_boundary U (Some (last t)) r"
proof -
  let ?L = "takeWhile is_letter s" and ?r1 = "dropWhile is_letter s"
  let ?H = "takeWhile (\<lambda>c. c = ord CHR ''-'') (take 1 ?r1)"
  let ?r2 = "drop (length ?H) ?r1"
  let ?D = "takeWhile (is_digit U) ?r2" and ?r3 = "dropWhile (is_digit U) ?r2"
  from assms have c: "at_boundary U prev s" "?L \<noteq> []" "?D \<noteq> []"
    "at_boundary U (Some (last ?D)) ?r3" and t: "t = ?L @ ?H @ ?D"
    by (simp_all add: code_prefix_def Let_def split: if_splits)
  from c(2) t show "t \<noteq> []" by simp
  from c(1) show "at_boundary U prev s" .
  have "code_shaped U (?L @ ?H @ ?D)"
    unfolding code_shaped_def using c(2,3) hyphen_take1 [of ?r1]
    by (intro exI [of _ ?L] exI [of _ ?H] exI [of _ ?D]) (simp add: list_all_takeWhile)
  with t show "code_shaped U t" by simp
  have "s = ?L @ ?r1" by simp
  also have "?r1 = ?H @ ?r2" by (simp only: hyphen_take1_split)
  also have "?r2 = ?D @ ?r3" by simp
  finally have s: "s = t @ ?r3" using t by simp
  from c(3) t have "last t = last ?D" by simp
  with c(4) s show "\<exists>r. s = t @ r \<and> at_boundary U (Some (last t)) r"
    by metis
qed

lemma takeWhile_run:
  assumes "list_all P xs" and "ys = [] \<or> \<not> P (hd ys)"
  shows "takeWhile P (xs @ ys) = xs" and "dropWhile P (xs @ ys) = ys"
proof -
  from assms(2) have "takeWhile P ys = []" "dropWhile P ys = ys"
    by (cases ys; simp)+
  with assms(1) show "takeWhile P (xs @ ys) = xs" "dropWhile P (xs @ ys) = ys"
    by (simp_all add: list_all_iff takeWhile_append2 dropWhile_append2)
qed

lemma code_prefix_SomeI:
  assumes "s = t @ r" and "code_shaped U t" and "at_boundary U prev s"
    and "at_boundary U (Some (last t)) r" and U: "ascii_part U"
  shows "code_prefix U prev s = Some t"
proof -
  from assms(2) obtain L H D where t: "t = L @ H @ D" and L: "L \<noteq> []" "list_all is_letter L"
    and H: "H = [] \<or> H = [ord CHR ''-'']" and D: "D \<noteq> []" "list_all (is_digit U) D"
    unfolding code_shaped_def by blast
  from D obtain d D' where d: "D = d # D'" "is_digit U d"
    by (cases D) auto
  have s: "s = L @ (H @ D @ r)" using assms(1) t by simp
  have "\<not> is_letter (ord CHR ''-'')" "\<not> is_letter d"
    using d(2) letter_not_hyphen letter_not_digit [OF U] by blast+
  then have nl: "\<not> is_letter (hd (H @ D @ r))"
    using H d(1) by auto
  have L1: "takeWhile is_letter s = L" and r1: "dropWhile is_letter s = H @ D @ r"
    unfolding s using L(2) nl by (simp_all add: takeWhile_run)
  have "d \<noteq> ord CHR ''-''"
    using d(2) by (rule digit_not_hyphen [OF U])
  then have Hh: "takeWhile (\<lambda>c. c = ord CHR ''-'') (take 1 (H @ D @ r)) = H"
    using H d(1) by auto
  have lastD: "last t = last D" using t D(1) by simp
  have "last D \<in> set D" using D(1) by simp
  with D(2) have "is_word U (last D)"
    by (simp add: list_all_iff digit_word)
  with assms(4) lastD have "r = [] \<or> \<not> is_word U (hd r)"
    by (cases r) (simp_all add: at_boundary_def)
  then have nd: "r = [] \<or> \<not> is_digit U (hd r)"
    using digit_word by blast
  have D1: "takeWhile (is_digit U) (D @ r) = D" and r3: "dropWhile (is_digit U) (D @ r) = r"
    using D(2) nd by (simp_all add: takeWhile_run)
  show ?thesis
    unfolding code_prefix_def Let_def L1 r1 Hh
    using assms(3,4) L(1) D(1) lastD t by (simp add: D1 r3)
qed

lemma slice_length: "j \<le> length s \<Longrightarrow> length (slice s i j) = j - i"
  by (simp add: slice_def)

lemma slice_nth: "j \<le> length s \<Longrightarrow> k < j - i \<Longrightarrow> slice s i j ! k = s ! (i + k)"
  by (simp add: slice_def)

lemma drop_slice: "i \<le> j \<Longrightarrow> drop i s = slice s i j @ drop j s"
proof -
  assume "i \<le> j"
  then have "drop j s = drop (j - i) (drop i s)" by simp
  then show ?thesis
    unfolding slice_def by (simp only: append_take_drop_id)
qed

lemma word_edge_boundary:
  "p \<le> length s \<Longrightarrow> word_edge U s p = at_boundary U (prev_at s p) (drop p s)"
proof (cases "p < length s")
  case True
  then have "drop p s = s ! p # drop (Suc p) s"
    by (simp add: Cons_nth_drop_Suc)
  with True show ?thesis
    by (simp add: word_edge_def at_boundary_def prev_at_def)
next
  case False
  assume "p \<le> length s"
  with False show ?thesis
    by (simp add: word_edge_def at_boundary_def prev_at_def)
qed

lemma code_at_iff:
  assumes "i < j" and "j \<le> length s" and U: "ascii_part U"
  shows "code_at U s i j \<longleftrightarrow> code_prefix U (prev_at s i) (drop i s) = Some (slice s i j)"
proof -
  let ?t = "slice s i j"
  have split: "drop i s = ?t @ drop j s"
    using assms(1) by (simp add: drop_slice)
  have len: "length ?t = j - i"
    using assms(2) by (rule slice_length)
  with assms(1) have ne: "?t \<noteq> []" by auto
  then have "last ?t = ?t ! (j - i - 1)"
    using len by (simp add: last_conv_nth)
  also have "\<dots> = s ! (j - 1)"
    using assms by (simp add: slice_nth)
  finally have last: "prev_at s j = Some (last ?t)"
    using assms(1) by (simp add: prev_at_def)
  have edges: "word_edge U s i = at_boundary U (prev_at s i) (drop i s)"
    "word_edge U s j = at_boundary U (Some (last ?t)) (drop j s)"
    using assms last by (simp_all add: word_edge_boundary)
  show ?thesis
  proof
    assume "code_at U s i j"
    then have c: "code_shaped U ?t" "at_boundary U (prev_at s i) (drop i s)"
      "at_boundary U (Some (last ?t)) (drop j s)"
      using edges by (simp_all add: code_at_def)
    show "code_prefix U (prev_at s i) (drop i s) = Some ?t"
      by (rule code_prefix_SomeI [OF split c U])
  next
    assume p: "code_prefix U (prev_at s i) (drop i s) = Some ?t"
    from code_prefix_SomeD(4) [OF p] obtain r where r: "drop i s = ?t @ r"
      "at_boundary U (Some (last ?t)) r" by blast
    from r(1) split have "r = drop j s" by simp
    with r(2) code_prefix_SomeD(2,3) [OF p] edges assms show "code_at U s i j"
      by (simp add: code_at_def)
  qed
qed

lemma code_prefix_position:
  assumes "i \<le> length s" and "code_prefix U (prev_at s i) (drop i s) = Some t"
    and U: "ascii_part U"
  shows "i < i + length t" and "i + length t \<le> length s" and "t = slice s i (i + length t)"
    and "code_at U s i (i + length t)"
proof -
  from code_prefix_SomeD [OF assms(2)] obtain r where ne: "t \<noteq> []" and r: "drop i s = t @ r"
    by blast
  from ne show lt: "i < i + length t" by simp
  have "length (drop i s) = length t + length r" by (simp add: r)
  with assms(1) show le: "i + length t \<le> length s" by simp
  from r show sl: "t = slice s i (i + length t)" by (simp add: slice_def)
  from code_at_iff [OF lt le U] assms(2) sl show "code_at U s i (i + length t)" by simp
qed

lemma code_at_unique:
  assumes "code_at U s i j" and "code_at U s i j'" and U: "ascii_part U"
  shows "j = j'"
proof -
  from assms have b: "i < j" "j \<le> length s" "i < j'" "j' \<le> length s"
    by (simp_all add: code_at_def)
  with assms have "Some (slice s i j) = Some (slice s i j')"
    by (simp add: code_at_iff)
  then have "length (slice s i j) = length (slice s i j')" by simp
  with b show ?thesis by (simp add: slice_length)
qed

lemma code_shaped_first:
  assumes "code_shaped U t"
  shows "t \<noteq> []" and "is_letter (t ! 0)"
proof -
  from assms obtain L H D where t: "t = L @ H @ D" and L: "L \<noteq> []" "list_all is_letter L"
    unfolding code_shaped_def by blast
  from t L(1) show "t \<noteq> []" by simp
  from L obtain l L' where "L = l # L'" "is_letter l" by (cases L) auto
  with t show "is_letter (t ! 0)" by simp
qed

lemma code_shaped_letter_before:
  assumes "code_shaped U t" and "Suc k < length t" and "is_letter (t ! Suc k)"
    and U: "ascii_part U"
  shows "is_letter (t ! k)"
proof -
  from assms(1) obtain L H D where t: "t = L @ H @ D" and L: "list_all is_letter L"
    and H: "H = [] \<or> H = [ord CHR ''-'']" and D: "list_all (is_digit U) D"
    unfolding code_shaped_def by blast
  have rest: "\<not> is_letter c" if "c \<in> set (H @ D)" for c
    using that H D letter_not_hyphen letter_not_digit [OF U] by (auto simp: list_all_iff)
  show ?thesis
  proof (cases "Suc k < length L")
    case True
    then have "t ! k = L ! k" "L ! k \<in> set L"
      by (simp_all add: t nth_append)
    with L show ?thesis by (simp add: list_all_iff)
  next
    case False
    then have "t ! Suc k = (H @ D) ! (Suc k - length L)"
      by (simp add: t nth_append)
    moreover have "Suc k - length L < length (H @ D)"
      using False assms(2) by (simp add: t)
    ultimately have "t ! Suc k \<in> set (H @ D)"
      using nth_mem by metis
    with rest assms(3) show ?thesis by blast
  qed
qed

lemma code_at_no_overlap:
  assumes "code_at U s i j" and "i < i'" and "i' < j" and U: "ascii_part U"
  shows "\<not> code_at U s i' j'"
proof
  assume c: "code_at U s i' j'"
  then have b': "i' < j'" "j' \<le> length s" and sh': "code_shaped U (slice s i' j')"
    and edge: "word_edge U s i'"
    by (simp_all add: code_at_def)
  from assms(1) have b: "i < j" "j \<le> length s" and sh: "code_shaped U (slice s i j)"
    by (simp_all add: code_at_def)
  from code_shaped_first(2) [OF sh'] b' have l': "is_letter (s ! i')"
    by (simp add: slice_nth)
  define k where "k = i' - Suc i"
  have k: "i' = i + Suc k"
    using assms(2) by (simp add: k_def)
  with assms(3) b have kl: "Suc k < length (slice s i j)" "Suc k < j - i" "k < j - i"
    by (simp_all add: slice_length)
  from l' k kl b have "is_letter (slice s i j ! Suc k)"
    by (simp add: slice_nth)
  from code_shaped_letter_before [OF sh kl(1) this U] kl b
  have "is_letter (s ! (i + k))" by (simp add: slice_nth)
  with k have "is_letter (s ! (i' - 1))" by simp
  with l' edge b' k show False
    by (simp add: word_edge_def letter_word [OF U])
qed

lemma concat_map_if:
  "concat (map (\<lambda>x. if P x then [f x] else []) xs) = map f (filter P xs)"
  by (induction xs) simp_all

lemma codes_from_alt:
  "codes_from U s i = map (slice s i) (filter (code_at U s i) [Suc i ..< Suc (length s)])"
  unfolding codes_from_def by (rule concat_map_if)

lemma filter_single_upt:
  assumes "lo \<le> j" and "j < hi" and "\<And>x. P x \<longleftrightarrow> x = j"
  shows "filter P [lo ..< hi] = [j]"
proof -
  have "[lo ..< hi] = [lo ..< j] @ [j ..< hi]"
    using assms(1,2) upt_add_eq_append [of lo j "hi - j"] by simp
  also have "[j ..< hi] = j # [Suc j ..< hi]"
    using assms(2) by (rule upt_conv_Cons)
  finally show ?thesis
    by (simp add: assms(3))
qed

lemma codes_from_single:
  assumes "code_at U s i j" and U: "ascii_part U"
  shows "codes_from U s i = [slice s i j]"
proof -
  from assms have "Suc i \<le> j" "j < Suc (length s)"
    by (simp_all add: code_at_def)
  moreover have "code_at U s i x \<longleftrightarrow> x = j" for x
    using assms(1) code_at_unique [OF _ _ U] by blast
  ultimately have "filter (code_at U s i) [Suc i ..< Suc (length s)] = [j]"
    by (rule filter_single_upt)
  then show ?thesis by (simp add: codes_from_alt)
qed

lemma codes_from_none: "(\<And>j. \<not> code_at U s i j) \<Longrightarrow> codes_from U s i = []"
  by (simp add: codes_from_alt)

lemma prev_after_slice:
  assumes "i < j" and "j \<le> length s"
  shows "prev_after p (slice s i j) = prev_at s j"
proof -
  have len: "length (slice s i j) = j - i"
    using assms(2) by (rule slice_length)
  with assms(1) have ne: "slice s i j \<noteq> []" by auto
  then have "last (slice s i j) = slice s i j ! (j - i - 1)"
    using len by (simp add: last_conv_nth)
  also have "\<dots> = s ! (j - 1)"
    using assms by (simp add: slice_nth)
  finally show ?thesis
    using assms(1) ne by (simp add: prev_at_def prev_after_def)
qed

lemma findall_from_no_match:
  assumes "i < length s" and "code_prefix U (prev_at s i) (drop i s) = None"
    and U: "ascii_part U"
  shows "findall_from U error_code_pattern (prev_at s i) (drop i s)
         = findall_from U error_code_pattern (prev_at s (Suc i)) (drop (Suc i) s)"
proof -
  from assms(1) have d: "drop i s = s ! i # drop (Suc i) s"
    by (simp add: Cons_nth_drop_Suc)
  have "findall_from U error_code_pattern (prev_at s i) (s ! i # drop (Suc i) s)
        = findall_from U error_code_pattern (Some (s ! i)) (drop (Suc i) s)"
    using assms(2) unfolding d
    by (subst findall_from.simps) (simp add: sre_match_error_code_pattern [OF U])
  then show ?thesis
    by (simp add: d prev_at_def)
qed

lemma findall_from_match:
  assumes "i \<le> length s" and "code_prefix U (prev_at s i) (drop i s) = Some t"
    and U: "ascii_part U"
  shows "findall_from U error_code_pattern (prev_at s i) (drop i s)
         = t # findall_from U error_code_pattern (prev_at s (i + length t)) (drop (i + length t) s)"
proof -
  from code_prefix_position [OF assms] code_prefix_SomeD(1) [OF assms(2)]
  have p: "i < i + length t" "i + length t \<le> length s" "t = slice s i (i + length t)" "t \<noteq> []"
    by blast+
  have "prev_after (prev_at s i) (slice s i (i + length t)) = prev_at s (i + length t)"
    using p(1,2) by (rule prev_after_slice)
  with p(3) have pa: "prev_after (prev_at s i) t = prev_at s (i + length t)"
    by simp
  have dd: "drop (length t + i) s = drop (i + length t) s"
    by (simp add: add.commute)
  show ?thesis
    using assms(2) p(4)
    by (subst findall_from.simps) (simp add: sre_match_error_code_pattern [OF U] pa dd)
qed

text \<open>
  The scan from position \<open>i\<close> on returns the codes that start at \<open>i\<close> or later.
\<close>

lemma findall_from_codes:
  assumes U: "ascii_part U"
  shows "i \<le> length s \<Longrightarrow>
   findall_from U error_code_pattern (prev_at s i) (drop i s)
     = concat (map (codes_from U s) [i ..< length s])"
proof (induction "length s - i" arbitrary: i rule: less_induct)
  case less
  show ?case
  proof (cases "code_prefix U (prev_at s i) (drop i s)")
    case None
    have "\<not> code_at U s i j" for j
    proof
      assume c: "code_at U s i j"
      then have "i < j" "j \<le> length s" by (simp_all add: code_at_def)
      from code_at_iff [OF this U] c None show False by simp
    qed
    then have none: "codes_from U s i = []"
      by (rule codes_from_none)
    show ?thesis
    proof (cases "i < length s")
      case True
      then have "findall_from U error_code_pattern (prev_at s (Suc i)) (drop (Suc i) s)
          = concat (map (codes_from U s) [Suc i ..< length s])"
        by (intro less.hyps) simp_all
      with True none show ?thesis
        by (simp add: findall_from_no_match [OF True None U] upt_conv_Cons)
    next
      case False
      with less.prems have "drop i s = []" "[i ..< length s] = []" by simp_all
      moreover have "findall_from U error_code_pattern (prev_at s i) [] = []"
        using None \<open>drop i s = []\<close>
        by (subst findall_from.simps) (simp add: sre_match_error_code_pattern [OF U])
      ultimately show ?thesis by simp
    qed
  next
    case (Some t)
    let ?j = "i + length t"
    from code_prefix_position [OF less.prems Some U]
    have p: "i < ?j" "?j \<le> length s" "t = slice s i ?j" "code_at U s i ?j"
      by blast+
    have "length s - ?j < length s - i"
      using p(1,2) by linarith
    then have ih: "findall_from U error_code_pattern (prev_at s ?j) (drop ?j s)
          = concat (map (codes_from U s) [?j ..< length s])"
      using p(2) by (rule less.hyps)
    have first: "codes_from U s i = [t]"
      using codes_from_single [OF p(4) U] p(3) by simp
    have between: "codes_from U s i' = []" if "i' \<in> set [Suc i ..< ?j]" for i'
    proof (rule codes_from_none)
      fix j'
      from that have lt: "i < i'" "i' < ?j" by simp_all
      show "\<not> code_at U s i' j'" by (rule code_at_no_overlap [OF p(4) lt U])
    qed
    have "[i ..< length s] = [i ..< ?j] @ [?j ..< length s]"
      using p(1,2) upt_add_eq_append [of i ?j "length s - ?j"] by simp
    also have "[i ..< ?j] = i # [Suc i ..< ?j]"
      using p(1) by (rule upt_conv_Cons)
    finally have "concat (map (codes_from U s) [i ..< length s])
        = t # concat (map (codes_from U s) [Suc i ..< ?j]) @ concat (map (codes_from U s) [?j ..< length s])"
      by (simp add: first)
    also have "concat (map (codes_from U s) [Suc i ..< ?j]) = []"
      using between by simp
    finally show ?thesis
      by (simp add: findall_from_match [OF less.prems Some U] ih)
  qed
qed

lemma all_codes_alt: "all_codes U s = concat (map (codes_from U s) [0 ..< length s])"
  by (simp only: all_codes_def codes_from_def [abs_def])

lemma extract_error_codes_eq:
  "ascii_part U \<Longrightarrow> extract_error_codes U text = all_codes U text"
  using findall_from_codes [where i = 0 and s = "text" and U = U]
  by (simp add: extract_error_codes_def findall_def all_codes_alt prev_at_def)

lemma code_at_in_all_codes:
  assumes "code_at U s i j" and U: "ascii_part U"
  shows "slice s i j \<in> set (all_codes U s)"
proof -
  from assms have "i < length s" by (simp add: code_at_def)
  then have "i \<in> set [0 ..< length s]" by simp
  moreover have "slice s i j \<in> set (codes_from U s i)"
    by (simp add: codes_from_single [OF assms])
  ultimately show ?thesis
    unfolding all_codes_alt by (auto simp del: atLeastLessThan_iff set_upt)
qed

lemma code_at_disjoint:
  assumes "code_at U s i j" and "code_at U s i' j'" and U: "ascii_part U"
  shows "(i = i' \<and> j = j') \<or> j \<le> i' \<or> j' \<le> i"
proof (cases i i' rule: linorder_cases)
  case less
  have "\<not> i' < j"
    using code_at_no_overlap [OF assms(1) less _ U] assms(2) by blast
  then show ?thesis by simp
next
  case equal
  with assms(1,2) code_at_unique [OF _ _ U] show ?thesis by blast
next
  case greater
  have "\<not> i < j'"
    using code_at_no_overlap [OF assms(2) greater _ U] assms(1) by blast
  then show ?thesis by simp
qed

text \<open>
  The extractor looks at the database only for the characters of the text, so on ASCII
  text every database gives what the database of Latin-1 gives.
\<close>

lemma code_shaped_mono:
  assumes "code_shaped U t" and "\<forall>c\<in>set t. is_digit U c \<longrightarrow> is_digit V c"
  shows "code_shaped V t"
proof -
  from assms(1) obtain L H D where t: "t = L @ H @ D" and L: "L \<noteq> []" "list_all is_letter L"
    and H: "H = [] \<or> H = [ord CHR ''-'']" and D: "D \<noteq> []" "list_all (is_digit U) D"
    unfolding code_shaped_def by blast
  from D(2) assms(2) t have "list_all (is_digit V) D"
    by (simp add: list_all_iff)
  with t L H D(1) show ?thesis
    unfolding code_shaped_def by blast
qed

lemma code_at_mono:
  assumes "code_at U s i j"
    and agree: "\<forall>c\<in>set s. is_word U c = is_word V c \<and> is_digit U c = is_digit V c"
  shows "code_at V s i j"
proof -
  from assms(1) have b: "i < j" "j \<le> length s" and sh: "code_shaped U (slice s i j)"
    and e: "word_edge U s i" "word_edge U s j"
    by (simp_all add: code_at_def)
  have "set (slice s i j) \<subseteq> set s"
    unfolding slice_def by (meson set_take_subset set_drop_subset subset_trans)
  with agree have "\<forall>c\<in>set (slice s i j). is_digit U c \<longrightarrow> is_digit V c"
    by blast
  with sh have sh': "code_shaped V (slice s i j)"
    by (rule code_shaped_mono)
  have w: "word_edge V s p" if "word_edge U s p" "p \<le> length s" for p
  proof -
    have "is_word U (s ! (p - 1)) = is_word V (s ! (p - 1))" if "0 < p"
      using that \<open>p \<le> length s\<close> agree by simp
    moreover have "is_word U (s ! p) = is_word V (s ! p)" if "p < length s"
      using that agree by simp
    ultimately show ?thesis
      using \<open>word_edge U s p\<close> unfolding word_edge_def by blast
  qed
  from b sh' w [OF e(1)] w [OF e(2)] show ?thesis
    by (simp add: code_at_def)
qed

lemma all_codes_cong:
  assumes "\<forall>c\<in>set s. is_word U c = is_word V c \<and> is_digit U c = is_digit V c"
  shows "all_codes U s = all_codes V s"
proof -
  from assms have "\<forall>c\<in>set s. is_word V c = is_word U c \<and> is_digit V c = is_digit U c"
    by simp
  with assms have "code_at U s i j = code_at V s i j" for i j
    using code_at_mono by blast
  then show ?thesis
    by (simp add: all_codes_def)
qed

lemma ascii_tables_agree:
  assumes "ascii_part U" and "ascii_part V" and "c < 128"
  shows "is_word U c = is_word V c \<and> is_digit U c = is_digit V c"
  using ascii_isalnum [OF assms(1,3)] ascii_isalnum [OF assms(2,3)]
    ascii_isdecimal [OF assms(1,3)] ascii_isdecimal [OF assms(2,3)]
  by (simp add: is_word_def is_digit_def)

lemma extract_error_codes_ascii:
  assumes U: "ascii_part U" and "\<forall>c\<in>set s. c < 128"
  shows "extract_error_codes U s = extract_error_codes latin1_db s"
proof -
  from assms(2) have "\<forall>c\<in>set s. is_word U c = is_word latin1_db c
      \<and> is_digit U c = is_digit latin1_db c"
    using ascii_tables_agree [OF U ascii_part_latin1] by blast
  then have "all_codes U s = all_codes latin1_db s"
    by (rule all_codes_cong)
  then show ?thesis
    by (simp add: extract_error_codes_eq [OF U] extract_error_codes_eq [OF ascii_part_latin1])
qed

text \<open>
  C3. For every text, and with every Unicode database that is ASCII on the ASCII code
  points, the extractor returns, in order of position, exactly the substrings of the
  text that are one or more letters of the pattern, an optional hyphen and one or more
  digits between two word edges (\<open>all_codes\<close>: slices of the text, so with the case they
  are written in). Two such occurrences never overlap. The result is the empty list
  exactly when the text has no such substring. The two texts of the contract give
  \<^verbatim>\<open>S-304\<close>, \<^verbatim>\<open>E101\<close> and \<^verbatim>\<open>s304\<close>.
\<close>

theorem extract_error_codes_all_codes:
  assumes U: "ascii_part U"
  shows "extract_error_codes U text = all_codes U text
   \<and> (\<forall>i j i' j'. code_at U text i j \<and> code_at U text i' j'
         \<longrightarrow> (i = i' \<and> j = j') \<or> j \<le> i' \<or> j' \<le> i)
   \<and> (extract_error_codes U text = [] \<longleftrightarrow> (\<forall>i j. \<not> code_at U text i j))
   \<and> extract_error_codes U (ustr ''error S-304 and E101'') = [ustr ''S-304'', ustr ''E101'']
   \<and> extract_error_codes U (ustr ''error s304'') = [ustr ''s304'']"
proof -
  have a: "extract_error_codes U text = all_codes U text"
    by (rule extract_error_codes_eq [OF U])
  have b: "\<forall>i j i' j'. code_at U text i j \<and> code_at U text i' j'
      \<longrightarrow> (i = i' \<and> j = j') \<or> j \<le> i' \<or> j' \<le> i"
    using code_at_disjoint [OF _ _ U] by blast
  have c: "extract_error_codes U text = [] \<longleftrightarrow> (\<forall>i j. \<not> code_at U text i j)"
  proof
    assume e: "extract_error_codes U text = []"
    show "\<forall>i j. \<not> code_at U text i j"
    proof (intro allI notI)
      fix i j
      assume "code_at U text i j"
      then have "slice text i j \<in> set (all_codes U text)"
        using U by (rule code_at_in_all_codes)
      with e a show False by simp
    qed
  next
    assume "\<forall>i j. \<not> code_at U text i j"
    then have "codes_from U text i = []" for i
      by (simp add: codes_from_none)
    then show "extract_error_codes U text = []"
      by (simp add: a all_codes_alt)
  qed
  have "\<forall>c\<in>set (ustr ''error S-304 and E101''). c < 128"
    by (simp add: ustr_def ord_def)
  then have "extract_error_codes U (ustr ''error S-304 and E101'')
      = extract_error_codes latin1_db (ustr ''error S-304 and E101'')"
    by (rule extract_error_codes_ascii [OF U])
  also have "\<dots> = [ustr ''S-304'', ustr ''E101'']"
    by code_simp
  finally have d: "extract_error_codes U (ustr ''error S-304 and E101'')
      = [ustr ''S-304'', ustr ''E101'']" .
  have "\<forall>c\<in>set (ustr ''error s304''). c < 128"
    by (simp add: ustr_def ord_def)
  then have "extract_error_codes U (ustr ''error s304'')
      = extract_error_codes latin1_db (ustr ''error s304'')"
    by (rule extract_error_codes_ascii [OF U])
  also have "\<dots> = [ustr ''s304'']"
    by code_simp
  finally have e: "extract_error_codes U (ustr ''error s304'') = [ustr ''s304'']" .
  from a b c d e show ?thesis by blast
qed

text \<open>
  With the database of Latin-1. In \<^verbatim>\<open>error s304\<close> the code stands at positions 6 to 10
  and is the only one. A text in which each candidate touches a word character beyond
  ASCII (an accented letter before \<^verbatim>\<open>S304\<close>, a superscript two after \<^verbatim>\<open>E1\<close>) or an
  underscore has no code.
\<close>

theorem extract_error_codes_all_codes_witness:
  "ascii_part latin1_db
   \<and> code_at latin1_db (ustr ''error s304'') 6 10
   \<and> all_codes latin1_db (ustr ''error s304'') = [ustr ''s304'']
   \<and> (\<forall>i j. \<not> code_at latin1_db ([0xE9] @ ustr ''S304 E1'' @ [0xB2] @ ustr '' E101_'') i j)
   \<and> all_codes latin1_db ([0xE9] @ ustr ''S304 E1'' @ [0xB2] @ ustr '' E101_'') = []"
proof -
  note U = ascii_part_latin1
  have x: "extract_error_codes latin1_db (ustr ''error s304'') = [ustr ''s304'']"
    by code_simp
  have y: "extract_error_codes latin1_db ([0xE9] @ ustr ''S304 E1'' @ [0xB2] @ ustr '' E101_'') = []"
    by code_simp
  have "code_prefix latin1_db (prev_at (ustr ''error s304'') 6) (drop 6 (ustr ''error s304''))
      = Some (slice (ustr ''error s304'') 6 10)"
    by code_simp
  moreover have "(6::nat) < 10" "10 \<le> length (ustr ''error s304'')"
    by (simp_all add: ustr_def)
  ultimately have c: "code_at latin1_db (ustr ''error s304'') 6 10"
    by (simp add: code_at_iff [OF _ _ U])
  from extract_error_codes_all_codes [OF U, of "ustr ''error s304''"]
  have "extract_error_codes latin1_db (ustr ''error s304'') = all_codes latin1_db (ustr ''error s304'')"
    by blast
  with x have a: "all_codes latin1_db (ustr ''error s304'') = [ustr ''s304'']" by simp
  let ?t = "[0xE9] @ ustr ''S304 E1'' @ [0xB2] @ ustr '' E101_''"
  from extract_error_codes_all_codes [OF U, of ?t]
  have e1: "extract_error_codes latin1_db ?t = all_codes latin1_db ?t"
    and e3: "extract_error_codes latin1_db ?t = [] \<longleftrightarrow> (\<forall>i j. \<not> code_at latin1_db ?t i j)"
    by blast+
  from e1 y have b1: "all_codes latin1_db ?t = []" by simp
  from e3 y have b2: "\<forall>i j. \<not> code_at latin1_db ?t i j" by blast
  note b = b1 b2
  from a b c U show ?thesis by blast
qed

section \<open>Reranking\<close>

lemma str_contains_iff: "str_contains needle hay \<longleftrightarrow> (\<exists>ps ss. hay = ps @ needle @ ss)"
proof (induction hay)
  case Nil
  then show ?case by auto
next
  case (Cons c cs)
  have "str_contains needle (c # cs) \<longleftrightarrow> prefix needle (c # cs) \<or> sublist needle cs"
    using Cons.IH by (simp add: sublist_def)
  also have "\<dots> \<longleftrightarrow> sublist needle (c # cs)"
    by (simp add: sublist_Cons_right)
  finally show ?case by (simp add: sublist_def)
qed

lemma partition_docs_filter:
  "partition_docs U codes raw_docs (ps, os) =
     (ps @ filter (any_code_in U codes) raw_docs, os @ filter (\<lambda>d. \<not> any_code_in U codes d) raw_docs)"
  by (induction raw_docs arbitrary: ps os) simp_all

lemma rerank_with_codes:
  "extract_error_codes U query \<noteq> [] \<Longrightarrow>
   rerank U query raw_docs =
     filter (matches_query U query) raw_docs @ filter (\<lambda>d. \<not> matches_query U query d) raw_docs"
  by (simp add: rerank_def Let_def partition_docs_filter matches_query_def [abs_def])

lemma rerank_without_codes: "extract_error_codes U query = [] \<Longrightarrow> rerank U query raw_docs = raw_docs"
  by (simp add: rerank_def)

lemma mset_rerank: "mset (rerank U query raw_docs) = mset raw_docs"
  by (cases "extract_error_codes U query = []")
     (simp_all add: rerank_without_codes rerank_with_codes)

lemma length_rerank: "length (rerank U query raw_docs) = length raw_docs"
  using mset_rerank [of U query raw_docs] by (metis size_mset)






text \<open>
  C5. The list handed to the prompt builder has \<open>min 3 n\<close> passages, \<open>n\<close> the number
  retrieved; with fewer than three retrieved, all of them are returned.
\<close>

theorem final_docs_length:
  "length (final_docs U query raw_docs) = min 3 (length raw_docs)
   \<and> (length raw_docs < 3 \<longrightarrow> mset (final_docs U query raw_docs) = mset raw_docs)"
  by (simp add: final_docs_def length_rerank mset_rerank)

text \<open>
  Two passages retrieved: both are returned.
\<close>

theorem final_docs_length_witness:
  "length [\<lparr>page_content = ustr ''E-101'', metadata = []\<rparr>, \<lparr>page_content = ustr ''S-304'', metadata = []\<rparr>] < 3
   \<and> mset (final_docs latin1_db (ustr ''s304'') [\<lparr>page_content = ustr ''E-101'', metadata = []\<rparr>, \<lparr>page_content = ustr ''S-304'', metadata = []\<rparr>])
     = mset [\<lparr>page_content = ustr ''E-101'', metadata = []\<rparr>, \<lparr>page_content = ustr ''S-304'', metadata = []\<rparr>]"
  using final_docs_length [of latin1_db "ustr ''s304''" "[\<lparr>page_content = ustr ''E-101'', metadata = []\<rparr>, \<lparr>page_content = ustr ''S-304'', metadata = []\<rparr>]"]
  by simp

text \<open>
  C2, as stated, fails: line 86 cuts the list to three passages on the path without
  codes too. Four passages and a query without any code give three passages back.
\<close>

theorem identity_pass_through_counterexample:
  "extract_error_codes latin1_db (ustr ''link is down'') = []
   \<and> final_docs latin1_db (ustr ''link is down'')
        [\<lparr>page_content = ustr ''a'', metadata = []\<rparr>, \<lparr>page_content = ustr ''b'', metadata = []\<rparr>,
         \<lparr>page_content = ustr ''c'', metadata = []\<rparr>, \<lparr>page_content = ustr ''d'', metadata = []\<rparr>]
     \<noteq> [\<lparr>page_content = ustr ''a'', metadata = []\<rparr>, \<lparr>page_content = ustr ''b'', metadata = []\<rparr>,
         \<lparr>page_content = ustr ''c'', metadata = []\<rparr>, \<lparr>page_content = ustr ''d'', metadata = []\<rparr>]"
  by code_simp

text \<open>
  C2, amended. When no code is extracted from the query, the list before the cut of line
  86 is the retrieved list itself, and the list handed to the prompt builder is its
  first three passages in order; it is the whole retrieved list when that has at most
  three passages.
\<close>

theorem no_codes_first_three:
  assumes "extract_error_codes U query = []"
  shows "rerank U query raw_docs = raw_docs
    \<and> final_docs U query raw_docs = take 3 raw_docs
    \<and> (length raw_docs \<le> 3 \<longrightarrow> final_docs U query raw_docs = raw_docs)"
  using assms by (simp add: final_docs_def rerank_without_codes)

text \<open>
  A query without codes and two passages: both come back, in order. An accented letter
  before \<^verbatim>\<open>S304\<close> is a word character, so that query holds no code either and the
  retrieved order stays.
\<close>

theorem no_codes_first_three_witness:
  "extract_error_codes latin1_db (ustr ''link is down'') = []
   \<and> length [\<lparr>page_content = ustr ''a'', metadata = []\<rparr>, \<lparr>page_content = ustr ''b'', metadata = []\<rparr>] \<le> 3
   \<and> final_docs latin1_db (ustr ''link is down'')
        [\<lparr>page_content = ustr ''a'', metadata = []\<rparr>, \<lparr>page_content = ustr ''b'', metadata = []\<rparr>]
     = [\<lparr>page_content = ustr ''a'', metadata = []\<rparr>, \<lparr>page_content = ustr ''b'', metadata = []\<rparr>]
   \<and> extract_error_codes latin1_db ([0xE9] @ ustr ''S304'') = []
   \<and> final_docs latin1_db ([0xE9] @ ustr ''S304'')
        [\<lparr>page_content = ustr ''E-101'', metadata = []\<rparr>, \<lparr>page_content = ustr ''S-304'', metadata = []\<rparr>]
     = [\<lparr>page_content = ustr ''E-101'', metadata = []\<rparr>, \<lparr>page_content = ustr ''S-304'', metadata = []\<rparr>]"
proof -
  have h: "extract_error_codes latin1_db (ustr ''link is down'') = []" by code_simp
  have g: "extract_error_codes latin1_db ([0xE9] @ ustr ''S304'') = []" by code_simp
  from no_codes_first_three [OF h, of "[\<lparr>page_content = ustr ''a'', metadata = []\<rparr>, \<lparr>page_content = ustr ''b'', metadata = []\<rparr>]"]
    no_codes_first_three [OF g, of "[\<lparr>page_content = ustr ''E-101'', metadata = []\<rparr>, \<lparr>page_content = ustr ''S-304'', metadata = []\<rparr>]"]
    h g
  show ?thesis by simp
qed

lemma any_code_in_iff:
  "any_code_in U codes doc \<longleftrightarrow>
     (\<exists>code\<in>set codes. \<exists>ps ss.
        upper U (remove_hyphens (page_content doc @ str_dict U (metadata doc))) = ps @ code @ ss)"
  by (simp add: any_code_in_def list_ex_iff str_contains_iff doc_blob_def)

lemma normalize_code_append:
  "normalize_code U (a @ b) = normalize_code U a @ normalize_code U b"
  by (simp add: normalize_code_def remove_hyphens_append upper_append)

lemma sublist_normalize_code:
  assumes "sublist a b"
  shows "sublist (normalize_code U a) (normalize_code U b)"
proof -
  from assms obtain ps ss where "b = ps @ a @ ss"
    by (auto simp: sublist_def)
  then have "normalize_code U b = normalize_code U ps @ normalize_code U a @ normalize_code U ss"
    by (simp add: normalize_code_append)
  then show ?thesis
    unfolding sublist_def by blast
qed

lemma sublist_chain:
  assumes "sublist a b" and "sublist b c"
  shows "sublist a c"
proof -
  from assms obtain p s p' s' where "b = p @ a @ s" "c = p' @ b @ s'"
    by (auto simp: sublist_def)
  then have "c = (p' @ p) @ a @ (s @ s')" by simp
  then show ?thesis
    unfolding sublist_def by blast
qed

lemma sublist_join: "x \<in> set xs \<Longrightarrow> sublist x (join sep xs)"
proof (induction sep xs rule: join.induct)
  case (1 sep)
  then show ?case by simp
next
  case (2 sep y)
  then show ?case by simp
next
  case (3 sep y z zs)
  show ?case
  proof (cases "x = y")
    case True
    then show ?thesis by simp
  next
    case False
    with 3 have "sublist x (join sep (z # zs))" by simp
    moreover have "sublist (join sep (z # zs)) ((y @ sep) @ join sep (z # zs))"
      by (rule sublist_append_leftI)
    ultimately have "sublist x ((y @ sep) @ join sep (z # zs))"
      by (rule sublist_chain)
    then show ?thesis by simp
  qed
qed

lemma repr_str_plain:
  assumes "plain U v"
  shows "repr_str U v = [single_quote] @ v @ [single_quote]"
proof -
  from assms have "single_quote \<notin> set v"
    by (auto simp: plain_def)
  moreover have "concat (map (repr_char U single_quote) v) = v"
    using assms
  proof (induction v)
    case Nil
    show ?case by simp
  next
    case (Cons c v)
    then have "repr_char U single_quote c = [c]"
      by (auto simp: plain_def repr_char_def newline_def)
    moreover from Cons have "concat (map (repr_char U single_quote) v) = v"
      by (simp add: plain_def)
    ultimately show ?case by simp
  qed
  ultimately show ?thesis
    by (simp add: repr_str_def)
qed

lemma metadata_in_str_dict:
  assumes "(k, v) \<in> set d"
  shows "sublist (repr_str U k) (str_dict U d)" and "sublist (repr_str U v) (str_dict U d)"
proof -
  let ?item = "repr_str U k @ ustr '': '' @ repr_str U v"
  let ?items = "map (\<lambda>(k, v). repr_str U k @ ustr '': '' @ repr_str U v) d"
  from assms have "?item \<in> set ?items" by force
  then have "sublist ?item (join (ustr '', '') ?items)"
    by (rule sublist_join)
  then have item: "sublist ?item (str_dict U d)"
    unfolding str_dict_def sublist_def by (metis append.assoc)
  have "sublist (repr_str U k) ?item" "sublist (repr_str U v) ?item"
    unfolding sublist_def by (metis append_Nil, metis append.assoc append_Nil2)
  with item show "sublist (repr_str U k) (str_dict U d)" "sublist (repr_str U v) (str_dict U d)"
    using sublist_chain by blast+
qed

lemma plain_metadata_in_blob:
  assumes "(k, v) \<in> set (metadata doc)" and "x = k \<or> x = v" and "plain U x"
  shows "sublist (normalize_code U x) (doc_blob U doc)"
proof -
  from assms(1,2) have "sublist (repr_str U x) (str_dict U (metadata doc))"
    using metadata_in_str_dict by blast
  moreover have "sublist x (repr_str U x)"
    unfolding repr_str_plain [OF assms(3)] by (rule sublist_appendI)
  ultimately have "sublist x (str_dict U (metadata doc))"
    using sublist_chain by blast
  then have "sublist x (page_content doc @ str_dict U (metadata doc))"
    unfolding sublist_def by (metis append.assoc)
  then have "sublist (normalize_code U x)
      (normalize_code U (page_content doc @ str_dict U (metadata doc)))"
    by (rule sublist_normalize_code)
  then show ?thesis
    by (simp add: doc_blob_def normalize_code_def)
qed

lemma content_in_blob: "sublist (normalize_code U (page_content doc)) (doc_blob U doc)"
proof -
  have "sublist (page_content doc) (page_content doc @ str_dict U (metadata doc))"
    by (rule sublist_append_rightI)
  then have "sublist (normalize_code U (page_content doc))
      (normalize_code U (page_content doc @ str_dict U (metadata doc)))"
    by (rule sublist_normalize_code)
  then show ?thesis
    by (simp add: doc_blob_def normalize_code_def)
qed

lemma any_code_in_part:
  assumes "code \<in> set codes" and "sublist code part" and "sublist part (doc_blob U doc)"
  shows "any_code_in U codes doc"
proof -
  from assms(2,3) have "sublist code (doc_blob U doc)"
    by (rule sublist_chain)
  with assms(1) show ?thesis
    by (auto simp: any_code_in_def list_ex_iff str_contains_iff sublist_def)
qed

text \<open>
  C4. When the query holds at least one code, the loop of lines 69 to 78 puts a passage
  into \<open>priority_docs\<close> exactly when its blob (the text followed by the rendered
  metadata, hyphens removed, upper-cased) contains a normalised code of the query as a
  substring, and into \<open>other_docs\<close> otherwise, each list in the order of retrieval. The
  blob holds the text and every plain key and value of the metadata: a passage is
  promoted when a normalised code is contained in its normalised text, or in a
  normalised plain key or value of its metadata. This holds with every Unicode database.
\<close>

theorem match_is_substring_containment:
  assumes "extract_error_codes U query \<noteq> []"
  shows "\<exists>priority_docs other_docs.
      partition_docs U (map (normalize_code U) (extract_error_codes U query)) raw_docs ([], [])
        = (priority_docs, other_docs)
    \<and> rerank U query raw_docs = priority_docs @ other_docs
    \<and> priority_docs = filter (\<lambda>doc. \<exists>code\<in>set (extract_error_codes U query). \<exists>ps ss.
          normalize_code U (page_content doc @ str_dict U (metadata doc))
            = ps @ normalize_code U code @ ss) raw_docs
    \<and> other_docs = filter (\<lambda>doc. \<not> (\<exists>code\<in>set (extract_error_codes U query). \<exists>ps ss.
          normalize_code U (page_content doc @ str_dict U (metadata doc))
            = ps @ normalize_code U code @ ss)) raw_docs
    \<and> (\<forall>doc\<in>set raw_docs. \<forall>code\<in>set (extract_error_codes U query).
          (\<exists>ps ss. normalize_code U (page_content doc) = ps @ normalize_code U code @ ss)
          \<or> (\<exists>(k, v)\<in>set (metadata doc). \<exists>x. (x = k \<or> x = v) \<and> plain U x
                \<and> (\<exists>ps ss. normalize_code U x = ps @ normalize_code U code @ ss))
          \<longrightarrow> doc \<in> set priority_docs)"
proof -
  let ?codes = "map (normalize_code U) (extract_error_codes U query)"
  have eq: "any_code_in U ?codes =
    (\<lambda>doc. \<exists>code\<in>set (extract_error_codes U query). \<exists>ps ss.
          normalize_code U (page_content doc @ str_dict U (metadata doc))
            = ps @ normalize_code U code @ ss)"
    by (rule ext) (simp add: any_code_in_iff normalize_code_def)
  have part: "partition_docs U ?codes raw_docs ([], [])
    = (filter (any_code_in U ?codes) raw_docs, filter (\<lambda>d. \<not> any_code_in U ?codes d) raw_docs)"
    by (simp add: partition_docs_filter)
  have rr: "rerank U query raw_docs
    = filter (any_code_in U ?codes) raw_docs @ filter (\<lambda>d. \<not> any_code_in U ?codes d) raw_docs"
    using assms by (simp add: rerank_def Let_def partition_docs_filter)
  have promoted: "doc \<in> set (filter (any_code_in U ?codes) raw_docs)"
    if doc: "doc \<in> set raw_docs" and code: "code \<in> set (extract_error_codes U query)"
      and found: "(\<exists>ps ss. normalize_code U (page_content doc) = ps @ normalize_code U code @ ss)
          \<or> (\<exists>(k, v)\<in>set (metadata doc). \<exists>x. (x = k \<or> x = v) \<and> plain U x
                \<and> (\<exists>ps ss. normalize_code U x = ps @ normalize_code U code @ ss))"
    for doc code
  proof -
    from code have c: "normalize_code U code \<in> set ?codes" by simp
    from found have "any_code_in U ?codes doc"
    proof
      assume "\<exists>ps ss. normalize_code U (page_content doc) = ps @ normalize_code U code @ ss"
      then have "sublist (normalize_code U code) (normalize_code U (page_content doc))"
        by (simp add: sublist_def)
      with c show ?thesis
        using content_in_blob by (rule any_code_in_part)
    next
      assume "\<exists>(k, v)\<in>set (metadata doc). \<exists>x. (x = k \<or> x = v) \<and> plain U x
                \<and> (\<exists>ps ss. normalize_code U x = ps @ normalize_code U code @ ss)"
      then obtain k v x where kv: "(k, v) \<in> set (metadata doc)" and x: "x = k \<or> x = v"
        and p: "plain U x"
        and s: "\<exists>ps ss. normalize_code U x = ps @ normalize_code U code @ ss"
        by blast
      from s have "sublist (normalize_code U code) (normalize_code U x)"
        by (simp add: sublist_def)
      with c show ?thesis
        using plain_metadata_in_blob [OF kv x p] by (rule any_code_in_part)
    qed
    with doc show ?thesis by simp
  qed
  show ?thesis
    apply (rule exI [of _ "filter (any_code_in U ?codes) raw_docs"])
    apply (rule exI [of _ "filter (\<lambda>d. \<not> any_code_in U ?codes d) raw_docs"])
    apply (intro conjI)
        apply (rule part)
       apply (rule rr)
      apply (simp only: eq)
     apply (simp only: eq)
    using promoted apply blast
    done
qed

text \<open>
  With the database of Latin-1 and the query \<^verbatim>\<open>s304\<close>. A passage whose text has no code
  and whose metadata has the value \<^verbatim>\<open>S-304\<close> is promoted; so is one reading
  \<^verbatim>\<open>XS-3-04Y\<close> (containment, not a whole token) and one that begins with a sharp s, whose
  upper case is \<^verbatim>\<open>SS\<close>; one with neither is not. An unprintable character in the metadata
  is rendered as its escape, which the query \<^verbatim>\<open>x85\<close> then matches.
\<close>

theorem match_is_substring_containment_witness:
  "extract_error_codes latin1_db (ustr ''s304'') \<noteq> []
   \<and> plain latin1_db (ustr ''S-304'')
   \<and> rerank latin1_db (ustr ''s304'')
        [\<lparr>page_content = ustr ''Power supply issue'', metadata = []\<rparr>,
         \<lparr>page_content = ustr ''Fiber link degradation'',
          metadata = [(ustr ''Category'', ustr ''Software Alarms''), (ustr ''Error_Code'', ustr ''S-304'')]\<rparr>,
         \<lparr>page_content = ustr ''XS-3-04Y'', metadata = []\<rparr>,
         \<lparr>page_content = [0xDF] @ ustr ''304'', metadata = []\<rparr>]
     = [\<lparr>page_content = ustr ''Fiber link degradation'',
          metadata = [(ustr ''Category'', ustr ''Software Alarms''), (ustr ''Error_Code'', ustr ''S-304'')]\<rparr>,
        \<lparr>page_content = ustr ''XS-3-04Y'', metadata = []\<rparr>,
        \<lparr>page_content = [0xDF] @ ustr ''304'', metadata = []\<rparr>,
        \<lparr>page_content = ustr ''Power supply issue'', metadata = []\<rparr>]
   \<and> rerank latin1_db (ustr ''x85'')
        [\<lparr>page_content = ustr ''power'', metadata = []\<rparr>,
         \<lparr>page_content = ustr ''relay'', metadata = [(ustr ''k'', [0x85])]\<rparr>]
     = [\<lparr>page_content = ustr ''relay'', metadata = [(ustr ''k'', [0x85])]\<rparr>,
        \<lparr>page_content = ustr ''power'', metadata = []\<rparr>]
   \<and> (\<exists>priority_docs other_docs.
        partition_docs latin1_db (map (normalize_code latin1_db) (extract_error_codes latin1_db (ustr ''s304'')))
          [\<lparr>page_content = ustr ''Power supply issue'', metadata = []\<rparr>,
           \<lparr>page_content = ustr ''Fiber link degradation'',
            metadata = [(ustr ''Category'', ustr ''Software Alarms''), (ustr ''Error_Code'', ustr ''S-304'')]\<rparr>]
          ([], [])
          = (priority_docs, other_docs)
        \<and> \<lparr>page_content = ustr ''Fiber link degradation'',
            metadata = [(ustr ''Category'', ustr ''Software Alarms''), (ustr ''Error_Code'', ustr ''S-304'')]\<rparr>
            \<in> set priority_docs)"
proof -
  let ?power = "\<lparr>page_content = ustr ''Power supply issue'', metadata = []\<rparr>"
  let ?fiber = "\<lparr>page_content = ustr ''Fiber link degradation'',
          metadata = [(ustr ''Category'', ustr ''Software Alarms''), (ustr ''Error_Code'', ustr ''S-304'')]\<rparr>"
  have h: "extract_error_codes latin1_db (ustr ''s304'') \<noteq> []" by code_simp
  have codes: "extract_error_codes latin1_db (ustr ''s304'') = [ustr ''s304'']" by code_simp
  have p: "plain latin1_db (ustr ''S-304'')" by code_simp
  have n: "normalize_code latin1_db (ustr ''S-304'') = [] @ normalize_code latin1_db (ustr ''s304'') @ []"
    by code_simp
  have v1: "rerank latin1_db (ustr ''s304'')
        [?power, ?fiber, \<lparr>page_content = ustr ''XS-3-04Y'', metadata = []\<rparr>,
         \<lparr>page_content = [0xDF] @ ustr ''304'', metadata = []\<rparr>]
     = [?fiber, \<lparr>page_content = ustr ''XS-3-04Y'', metadata = []\<rparr>,
        \<lparr>page_content = [0xDF] @ ustr ''304'', metadata = []\<rparr>, ?power]"
    by code_simp
  have v2: "rerank latin1_db (ustr ''x85'')
        [\<lparr>page_content = ustr ''power'', metadata = []\<rparr>,
         \<lparr>page_content = ustr ''relay'', metadata = [(ustr ''k'', [0x85])]\<rparr>]
     = [\<lparr>page_content = ustr ''relay'', metadata = [(ustr ''k'', [0x85])]\<rparr>,
        \<lparr>page_content = ustr ''power'', metadata = []\<rparr>]"
    by code_simp
  from match_is_substring_containment [OF h, of "[?power, ?fiber]"]
  obtain priority_docs other_docs where
    part: "partition_docs latin1_db
        (map (normalize_code latin1_db) (extract_error_codes latin1_db (ustr ''s304'')))
        [?power, ?fiber] ([], []) = (priority_docs, other_docs)"
    and prom: "\<forall>doc\<in>set [?power, ?fiber]. \<forall>code\<in>set (extract_error_codes latin1_db (ustr ''s304'')).
          (\<exists>ps ss. normalize_code latin1_db (page_content doc) = ps @ normalize_code latin1_db code @ ss)
          \<or> (\<exists>(k, v)\<in>set (metadata doc). \<exists>x. (x = k \<or> x = v) \<and> plain latin1_db x
                \<and> (\<exists>ps ss. normalize_code latin1_db x = ps @ normalize_code latin1_db code @ ss))
          \<longrightarrow> doc \<in> set priority_docs"
    by blast
  have ex: "\<exists>x. (x = ustr ''Error_Code'' \<or> x = ustr ''S-304'') \<and> plain latin1_db x
      \<and> (\<exists>ps ss. normalize_code latin1_db x = ps @ normalize_code latin1_db (ustr ''s304'') @ ss)"
    using p n by blast
  have "\<exists>(k, v)\<in>set (metadata ?fiber). \<exists>x. (x = k \<or> x = v) \<and> plain latin1_db x
      \<and> (\<exists>ps ss. normalize_code latin1_db x = ps @ normalize_code latin1_db (ustr ''s304'') @ ss)"
    by (rule bexI [of _ "(ustr ''Error_Code'', ustr ''S-304'')"]) (use ex in simp_all)
  moreover have "?fiber \<in> set [?power, ?fiber]"
    and "ustr ''s304'' \<in> set (extract_error_codes latin1_db (ustr ''s304''))"
    by (simp_all add: codes)
  ultimately have "?fiber \<in> set priority_docs"
    using prom by blast
  with part h p v1 v2 show ?thesis by blast
qed

section \<open>Answers and failures\<close>


lemma final_docs_empty_iff: "final_docs U query raw_docs = [] \<longleftrightarrow> raw_docs = []"
proof -
  have "length (final_docs U query raw_docs) = min 3 (length raw_docs)"
    by (simp add: final_docs_def length_rerank)
  then show ?thesis by (cases raw_docs) auto
qed



lemma get_solution_snd:
  "snd (get_solution U self query) =
     (case snd (get_solution_try U self query) of
        Inl e \<Rightarrow> \<lparr>answer = ustr ''Error processing request: '' @ message e, source_documents = []\<rparr>
      | Inr result \<Rightarrow> result)"
  by (simp add: get_solution_def split: prod.splits sum.splits)



text \<open>
  C8. When the retriever raises, or the language model raises on the prompt of a
  non-empty retrieval, the exception leaves the body of the \<^verbatim>\<open>try\<close> and
  \<^verbatim>\<open>get_solution\<close> returns the answer \<^verbatim>\<open>Error processing request: \<close> followed by the
  message of the exception, with no supporting passage. When the language model raises
  in \<^verbatim>\<open>get_baseline_response\<close>, that returns \<^verbatim>\<open>Error generating baseline: \<close> followed by
  the message.
\<close>

theorem failures_become_error_results:
  "(similarity_search self query 10 = Inl e \<longrightarrow>
      snd (get_solution_try U self query) = Inl e
      \<and> snd (get_solution U self query)
          = \<lparr>answer = ustr ''Error processing request: '' @ message e, source_documents = []\<rparr>)
   \<and> (similarity_search self query 10 = Inr raw_docs \<and> raw_docs \<noteq> []
      \<and> generate_content self (solution_prompt (final_docs U query raw_docs) query) = Inl e \<longrightarrow>
      snd (get_solution_try U self query) = Inl e
      \<and> snd (get_solution U self query)
          = \<lparr>answer = ustr ''Error processing request: '' @ message e, source_documents = []\<rparr>)
   \<and> (generate_content self (baseline_prompt query) = Inl e \<longrightarrow>
      snd (get_baseline_response_try self query) = Inl e
      \<and> snd (get_baseline_response self query) = ustr ''Error generating baseline: '' @ message e)"
proof -
  have a: "snd (get_solution_try U self query) = Inl e" if "similarity_search self query 10 = Inl e"
    using that by (simp add: get_solution_try_def)
  have b: "snd (get_solution_try U self query) = Inl e"
    if "similarity_search self query 10 = Inr raw_docs" "raw_docs \<noteq> []"
      "generate_content self (solution_prompt (final_docs U query raw_docs) query) = Inl e"
    using that by (simp add: get_solution_try_def Let_def final_docs_empty_iff)
  have c: "snd (get_baseline_response_try self query) = Inl e
      \<and> snd (get_baseline_response self query) = ustr ''Error generating baseline: '' @ message e"
    if "generate_content self (baseline_prompt query) = Inl e"
    using that by (simp add: get_baseline_response_try_def get_baseline_response_def Let_def)
  from a b c show ?thesis
    by (simp add: get_solution_snd)
qed

text \<open>
  The test \<^verbatim>\<open>test_get_solution_error_handling\<close> (the retriever raises
  \<^verbatim>\<open>DB Connection Failed\<close>), and a language model that raises after a retrieval.
\<close>

theorem failures_become_error_results_witness:
  "similarity_search
      \<lparr>similarity_search = (\<lambda>q k. Inl (Exception (ustr ''DB Connection Failed''))),
       generate_content = (\<lambda>p. Inr (ustr ''unused''))\<rparr> (ustr ''S-304'') 10
     = Inl (Exception (ustr ''DB Connection Failed''))
   \<and> snd (get_solution latin1_db
      \<lparr>similarity_search = (\<lambda>q k. Inl (Exception (ustr ''DB Connection Failed''))),
       generate_content = (\<lambda>p. Inr (ustr ''unused''))\<rparr> (ustr ''S-304''))
     = \<lparr>answer = ustr ''Error processing request: DB Connection Failed'', source_documents = []\<rparr>
   \<and> snd (get_solution latin1_db
      \<lparr>similarity_search = (\<lambda>q k. Inr [\<lparr>page_content = ustr ''S-304'', metadata = []\<rparr>]),
       generate_content = (\<lambda>p. Inl (Exception (ustr ''quota exceeded'')))\<rparr> (ustr ''S-304''))
     = \<lparr>answer = ustr ''Error processing request: quota exceeded'', source_documents = []\<rparr>
   \<and> snd (get_baseline_response
      \<lparr>similarity_search = (\<lambda>q k. Inr [\<lparr>page_content = ustr ''S-304'', metadata = []\<rparr>]),
       generate_content = (\<lambda>p. Inl (Exception (ustr ''quota exceeded'')))\<rparr> (ustr ''S-304''))
     = ustr ''Error generating baseline: quota exceeded''"
  using
    failures_become_error_results
      [where U = latin1_db
         and self = "\<lparr>similarity_search = (\<lambda>q k. Inl (Exception (ustr ''DB Connection Failed''))),
            generate_content = (\<lambda>p. Inr (ustr ''unused''))\<rparr>"
         and query = "ustr ''S-304''" and e = "Exception (ustr ''DB Connection Failed'')"
         and raw_docs = "[]"]
    failures_become_error_results
      [where U = latin1_db
         and self = "\<lparr>similarity_search = (\<lambda>q k. Inr [\<lparr>page_content = ustr ''S-304'', metadata = []\<rparr>]),
            generate_content = (\<lambda>p. Inl (Exception (ustr ''quota exceeded'')))\<rparr>"
         and query = "ustr ''S-304''" and e = "Exception (ustr ''quota exceeded'')"
         and raw_docs = "[\<lparr>page_content = ustr ''S-304'', metadata = []\<rparr>]"]
  by (simp add: ustr_def)

text \<open>
  C9. Without \<^verbatim>\<open>GEMINI_API_KEY\<close> in the environment (or with an empty one) \<^verbatim>\<open>__init__\<close>
  raises \<^verbatim>\<open>ValueError\<close>; an engine is only ever built from a non-empty key.
\<close>

theorem init_requires_credential:
  "(environ (ustr ''GEMINI_API_KEY'') = None \<or> environ (ustr ''GEMINI_API_KEY'') = Some [] \<longrightarrow>
      init environ connect = Inl (ValueError (ustr ''GEMINI_API_KEY not found.'')))
   \<and> (init environ connect = Inr self \<longrightarrow>
      (\<exists>api_key. environ (ustr ''GEMINI_API_KEY'') = Some api_key \<and> api_key \<noteq> []
         \<and> connect api_key = Inr self))"
  by (auto simp: init_def split: option.splits if_splits)

text \<open>
  An empty environment, and one that holds a key.
\<close>

theorem init_requires_credential_witness:
  "init Map.empty (\<lambda>api_key. Inr \<lparr>similarity_search = (\<lambda>q k. Inr []), generate_content = (\<lambda>p. Inr (ustr ''ok''))\<rparr>)
     = Inl (ValueError (ustr ''GEMINI_API_KEY not found.''))
   \<and> init [(ustr ''GEMINI_API_KEY'') \<mapsto> (ustr ''secret'')]
        (\<lambda>api_key. Inr \<lparr>similarity_search = (\<lambda>q k. Inr []), generate_content = (\<lambda>p. Inr (ustr ''ok''))\<rparr>)
     = Inr \<lparr>similarity_search = (\<lambda>q k. Inr []), generate_content = (\<lambda>p. Inr (ustr ''ok''))\<rparr>
   \<and> (\<exists>api_key. [(ustr ''GEMINI_API_KEY'') \<mapsto> (ustr ''secret'')] (ustr ''GEMINI_API_KEY'') = Some api_key \<and> api_key \<noteq> [])"
proof -
  have a: "init [(ustr ''GEMINI_API_KEY'') \<mapsto> (ustr ''secret'')]
        (\<lambda>api_key. Inr \<lparr>similarity_search = (\<lambda>q k. Inr []), generate_content = (\<lambda>p. Inr (ustr ''ok''))\<rparr>)
     = Inr \<lparr>similarity_search = (\<lambda>q k. Inr []), generate_content = (\<lambda>p. Inr (ustr ''ok''))\<rparr>"
    by (simp add: init_def ustr_def)
  from init_requires_credential
      [of Map.empty "\<lambda>api_key. Inr \<lparr>similarity_search = (\<lambda>q k. Inr []), generate_content = (\<lambda>p. Inr (ustr ''ok''))\<rparr>"]
  have b: "init Map.empty (\<lambda>api_key. Inr \<lparr>similarity_search = (\<lambda>q k. Inr []), generate_content = (\<lambda>p. Inr (ustr ''ok''))\<rparr>)
     = Inl (ValueError (ustr ''GEMINI_API_KEY not found.''))"
    by simp
  from init_requires_credential
      [of "[(ustr ''GEMINI_API_KEY'') \<mapsto> (ustr ''secret'')]"
          "\<lambda>api_key. Inr \<lparr>similarity_search = (\<lambda>q k. Inr []), generate_content = (\<lambda>p. Inr (ustr ''ok''))\<rparr>"
          "\<lparr>similarity_search = (\<lambda>q k. Inr []), generate_content = (\<lambda>p. Inr (ustr ''ok''))\<rparr>"] a
  have c: "\<exists>api_key. [(ustr ''GEMINI_API_KEY'') \<mapsto> (ustr ''secret'')] (ustr ''GEMINI_API_KEY'') = Some api_key \<and> api_key \<noteq> []"
    by blast
  from a b c show ?thesis by blast
qed



end
